theory Spec2Isabelle
  imports Main "HOL-Library.Word"
begin

unbundle bit_operations_syntax

section \<open>Fixnum codec (include/loader/mezzano.h)\<close>

text \<open>
  \<^verbatim>\<open>static inline uint64_t fixnum(int64_t val) { return val << 1; }\<close>
  \<^verbatim>\<open>static inline int64_t unfixnum(uint64_t fix) { return ((int64_t)fix) >> 1; }\<close>
  Both types are 64 bits wide, so one word type carries them: the signed reading is
  \<open>sint\<close>, the left shift is \<open>push_bit\<close> and the sign-extending right shift is
  \<open>signed_drop_bit\<close>.
\<close>

type_synonym u64 = "64 word"

definition fixnum :: "u64 \<Rightarrow> u64" where
  "fixnum val = push_bit 1 val"

definition unfixnum :: "u64 \<Rightarrow> u64" where
  "unfixnum fix = signed_drop_bit 1 fix"

section \<open>Kernel-visible memory map (loader/mezzano.c)\<close>

text \<open>
  \<^verbatim>\<open>mezzano_memory_map_entry_t\<close> and the part of \<^verbatim>\<open>mezzano_boot_information_t\<close> that the
  memory-map and buddy code touches. The C arrays have a fixed size: \<open>memory_map\<close> has
  \<open>mezzano_max_memory_map_size\<close> slots of which the first \<open>n_memory_map_entries\<close> are live,
  \<open>buddy_bin_32\<close> has 20 bins and \<open>buddy_bin_64\<close> has 27.
\<close>

record mezzano_memory_map_entry =
  start :: u64
  end' :: u64

record mezzano_buddy_bin =
  first_page :: u64
  count :: u64

record mezzano_boot_information =
  buddy_bin_32 :: "mezzano_buddy_bin list"
  buddy_bin_64 :: "mezzano_buddy_bin list"
  boot_options :: u64
  n_memory_map_entries :: u64
  memory_map :: "mezzano_memory_map_entry list"

definition log2_4k_page :: nat where
  "log2_4k_page = 12"

definition mezzano_n_buddy_bins_32_bit :: nat where
  "mezzano_n_buddy_bins_32_bit = 32 - log2_4k_page"

definition mezzano_n_buddy_bins_64_bit :: nat where
  "mezzano_n_buddy_bins_64_bit = 39 - log2_4k_page"

definition mezzano_max_memory_map_size :: nat where
  "mezzano_max_memory_map_size = 32"

text \<open>The boot-information page after \<^verbatim>\<open>memset(boot_info, 0, PAGE_SIZE)\<close>.\<close>

definition zero_boot_info :: mezzano_boot_information where
  "zero_boot_info =
     \<lparr> buddy_bin_32 = replicate mezzano_n_buddy_bins_32_bit \<lparr>first_page = 0, count = 0\<rparr>,
       buddy_bin_64 = replicate mezzano_n_buddy_bins_64_bit \<lparr>first_page = 0, count = 0\<rparr>,
       boot_options = 0,
       n_memory_map_entries = 0,
       memory_map = replicate mezzano_max_memory_map_size \<lparr>start = 0, end' = 0\<rparr> \<rparr>"

definition in_range :: "u64 \<Rightarrow> u64 \<Rightarrow> u64 \<Rightarrow> bool" where
  "in_range s e v \<longleftrightarrow> s \<le> v \<and> v \<le> e"

text \<open>The merge pass of the source has an empty body (\<^verbatim>\<open>// TODO.\<close>).\<close>

definition crunch_memory_map :: "mezzano_boot_information \<Rightarrow> mezzano_boot_information" where
  "crunch_memory_map boot_info = boot_info"

text \<open>
  \<^verbatim>\<open>memmove(&a[dst], &a[src], cnt * sizeof a[0])\<close> on an array held as a list; the callers
  keep \<open>dst + cnt\<close> and \<open>src + cnt\<close> within the array.
\<close>

definition memmove_entries :: "'a list \<Rightarrow> nat \<Rightarrow> nat \<Rightarrow> nat \<Rightarrow> 'a list" where
  "memmove_entries a dst src cnt = take dst a @ take cnt (drop src a) @ drop (dst + cnt) a"

text \<open>The tail of \<^verbatim>\<open>mezzano_insert_into_memory_map\<close>, reached with the insertion index \<open>i\<close>.\<close>

definition insert_new_region ::
  "mezzano_boot_information \<Rightarrow> u64 \<Rightarrow> u64 \<Rightarrow> u64 \<Rightarrow> mezzano_boot_information" where
  "insert_new_region boot_info s e i =
     (if n_memory_map_entries boot_info = of_nat mezzano_max_memory_map_size then boot_info
      else
        let shuffled = memmove_entries (memory_map boot_info) (unat (i + 1)) (unat i)
                         (unat (n_memory_map_entries boot_info - i));
            stored = shuffled[unat i := \<lparr>start = s, end' = e\<rparr>]
        in crunch_memory_map
             (boot_info\<lparr>memory_map := stored,
                        n_memory_map_entries := n_memory_map_entries boot_info + 1\<rparr>))"

definition merge_entry :: "mezzano_memory_map_entry \<Rightarrow> u64 \<Rightarrow> u64 \<Rightarrow> mezzano_memory_map_entry" where
  "merge_entry m s e =
     \<lparr> start = (if start m > s then s else start m),
       end' = (if end' m < e then e else end' m) \<rparr>"

text \<open>The \<^verbatim>\<open>for\<close> loop of \<^verbatim>\<open>mezzano_insert_into_memory_map\<close>, from index \<open>i\<close> on.\<close>

function insert_scan ::
  "mezzano_boot_information \<Rightarrow> u64 \<Rightarrow> u64 \<Rightarrow> u64 \<Rightarrow> mezzano_boot_information" where
  "insert_scan boot_info s e i =
     (if i < n_memory_map_entries boot_info then
        let m = memory_map boot_info ! unat i in
        if start m > e then insert_new_region boot_info s e i
        else if in_range (start m) (end' m) s \<or> in_range (start m) (end' m) e then
          crunch_memory_map
            (boot_info\<lparr>memory_map := (memory_map boot_info)[unat i := merge_entry m s e]\<rparr>)
        else insert_scan boot_info s e (i + 1)
      else insert_new_region boot_info s e i)"
  by pat_completeness auto
termination
proof (relation "measure (\<lambda>(b, s, e, i). unat (n_memory_map_entries b) - unat i)")
  show "wf (measure (\<lambda>(b, s, e, i). unat (n_memory_map_entries b) - unat i))"
    by simp
next
  fix boot_info :: mezzano_boot_information and s e i :: u64 and m
  assume lt: "i < n_memory_map_entries boot_info"
  have below: "unat i < unat (n_memory_map_entries boot_info)"
    using lt by (simp add: word_less_nat_alt)
  moreover have "unat (n_memory_map_entries boot_info) < 2 ^ 64"
    using unsigned_less [of "n_memory_map_entries boot_info"] by simp
  ultimately have "unat i + unat (1 :: u64) < 2 ^ LENGTH(64)"
    by simp
  then have "unat (i + 1) = unat i + 1"
    by (simp add: unat_add_lem [THEN iffD1])
  with below show "((boot_info, s, e, i + 1), (boot_info, s, e, i))
      \<in> measure (\<lambda>(b, s, e, i). unat (n_memory_map_entries b) - unat i)"
    by simp
qed

declare insert_scan.simps [simp del]

definition mezzano_insert_into_memory_map ::
  "mezzano_boot_information \<Rightarrow> u64 \<Rightarrow> u64 \<Rightarrow> mezzano_boot_information" where
  "mezzano_insert_into_memory_map boot_info s e = insert_scan boot_info s e 0"

text \<open>A sequence of calls, in order.\<close>

fun insert_all :: "mezzano_boot_information \<Rightarrow> (u64 \<times> u64) list \<Rightarrow> mezzano_boot_information" where
  "insert_all boot_info [] = boot_info"
| "insert_all boot_info ((s, e) # rs) = insert_all (mezzano_insert_into_memory_map boot_info s e) rs"

text \<open>The live entries: the first \<open>n_memory_map_entries\<close> slots of the array.\<close>

definition live_entries :: "mezzano_boot_information \<Rightarrow> mezzano_memory_map_entry list" where
  "live_entries boot_info = take (unat (n_memory_map_entries boot_info)) (memory_map boot_info)"

text \<open>
  What the loop and the \<^verbatim>\<open>memmove\<close> rely on: the array keeps its 32 slots and the entry
  count stays within them.
\<close>

definition map_inv :: "mezzano_boot_information \<Rightarrow> bool" where
  "map_inv b \<longleftrightarrow> length (memory_map b) = mezzano_max_memory_map_size
     \<and> unat (n_memory_map_entries b) \<le> mezzano_max_memory_map_size"

text \<open>
  The property the memory map is documented to have (\<^verbatim>\<open>This is sorted in address order,
  with no overlaps\<close>) in its strict form: every earlier entry ends below the start of every
  later one.
\<close>

definition strictly_separated :: "mezzano_memory_map_entry list \<Rightarrow> bool" where
  "strictly_separated es = sorted_wrt (\<lambda>a b. end' a < start b) es"


text \<open>
  Regions as the callers pass them, \<open>(start, end)\<close>, and the entry a region becomes. Two
  regions are apart when one ends below the start of the other, so that they neither
  overlap nor touch; a list of regions is separated when every region has
  \<open>start \<le> end\<close> and any two are apart.
\<close>

definition region_entry :: "u64 \<times> u64 \<Rightarrow> mezzano_memory_map_entry" where
  "region_entry r = \<lparr>start = fst r, end' = snd r\<rparr>"

definition apart :: "u64 \<times> u64 \<Rightarrow> u64 \<times> u64 \<Rightarrow> bool" where
  "apart r r' \<longleftrightarrow> snd r < fst r' \<or> snd r' < fst r"

fun separated_regions :: "(u64 \<times> u64) list \<Rightarrow> bool" where
  "separated_regions [] \<longleftrightarrow> True"
| "separated_regions (r # rs) \<longleftrightarrow> fst r \<le> snd r \<and> list_all (apart r) rs \<and> separated_regions rs"
section \<open>The \<^verbatim>\<open>mezzano\<close> command (loader/mezzano.c, \<^verbatim>\<open>config_cmd_mezzano\<close>)\<close>

type_synonym u8 = "8 word"
type_synonym u16 = "16 word"

text \<open>\<^verbatim>\<open>mezzano_header_t\<close>, without its padding fields.\<close>

record mezzano_header =
  magic :: "u8 list"
  uuid :: "u8 list"
  protocol_major :: u16
  protocol_minor :: u16
  entry_fref :: u64
  initial_process :: u64
  nil :: u64
  architecture :: u8
  initial_stack_pointer :: u64
  bml4 :: u64
  freelist_head :: u64

text \<open>\<^verbatim>\<open>static const char mezzano_magic[] = "\x00MezzanineImage\x00";\<close>, its first 16 bytes.\<close>

definition mezzano_magic :: "u8 list" where
  "mezzano_magic =
     [0x00, 0x4D, 0x65, 0x7A, 0x7A, 0x61, 0x6E, 0x69, 0x6E, 0x65, 0x49, 0x6D, 0x61, 0x67, 0x65, 0x00]"

definition mezzano_protocol_major :: u16 where
  "mezzano_protocol_major = 0"

definition mezzano_protocol_minor :: u16 where
  "mezzano_protocol_minor = 26"

text \<open>
  A command argument: the command reads the payload of string values only, of any other
  value just that its type is not \<^verbatim>\<open>VALUE_TYPE_STRING\<close>.
\<close>

datatype value_t = Value_String string | Value_Other

text \<open>
  \<^verbatim>\<open>mezzano_loader_t\<close>. The device, the file handle and the device name stay outside the
  model: what is read through them is an argument of the functions that read.
\<close>

record mezzano_loader =
  header :: mezzano_header
  force_ro :: bool
  freestanding :: bool
  video_console :: bool
  no_detect :: bool
  no_smp :: bool
  page_count :: u64
  n_pages_loaded :: u64
  verbose :: bool

definition zero_header :: mezzano_header where
  "zero_header =
     \<lparr> magic = replicate 16 0, uuid = replicate 16 0, protocol_major = 0, protocol_minor = 0,
       entry_fref = 0, initial_process = 0, nil = 0, architecture = 0,
       initial_stack_pointer = 0, bml4 = 0, freelist_head = 0 \<rparr>"

text \<open>The loader data after \<^verbatim>\<open>memset(data, 0, sizeof *data)\<close>.\<close>

definition zero_loader :: mezzano_loader where
  "zero_loader =
     \<lparr> header = zero_header, force_ro = False, freestanding = False, video_console = False,
       no_detect = False, no_smp = False, page_count = 0, n_pages_loaded = 0, verbose = False \<rparr>"

text \<open>Every call of \<^verbatim>\<open>config_error\<close> in the command, by its message.\<close>

datatype config_error =
    Invalid_Arguments
  | Image_Not_Located
  | Bad_Option
  | Unsupported_Option string
  | Insufficient_Memory
  | Header_IO_Error
  | Bad_Header
  | Unsupported_Protocol_Major
  | Unsupported_Protocol_Minor

text \<open>
  The option loop, \<^verbatim>\<open>for(unsigned int i = 1; i < args->count; i += 1)\<close>, on the loader data
  and the local \<^verbatim>\<open>skip_memory_test\<close>.
\<close>

fun parse_options ::
  "value_t list \<Rightarrow> mezzano_loader \<times> bool \<Rightarrow> config_error + (mezzano_loader \<times> bool)" where
  "parse_options [] acc = Inr acc"
| "parse_options (Value_Other # rest) acc = Inl Bad_Option"
| "parse_options (Value_String a # rest) (data, skip) =
     (if a = ''read-only'' then parse_options rest (data\<lparr>force_ro := True\<rparr>, skip)
      else if a = ''freestanding'' then parse_options rest (data\<lparr>freestanding := True\<rparr>, skip)
      else if a = ''video-console'' then parse_options rest (data\<lparr>video_console := True\<rparr>, skip)
      else if a = ''no-detect'' then parse_options rest (data\<lparr>no_detect := True\<rparr>, skip)
      else if a = ''no-smp'' then parse_options rest (data\<lparr>no_smp := True\<rparr>, skip)
      else if a = ''i-promise-i-have-enough-memory'' then parse_options rest (data, True)
      else if a = ''verbose'' then parse_options rest (data\<lparr>verbose := True\<rparr>, skip)
      else Inl (Unsupported_Option a))"

text \<open>
  What the command obtains from the rest of the boot loader: whether
  \<^verbatim>\<open>mezzano_locate_image\<close> finds the path, the sizes of the ranges that
  \<^verbatim>\<open>memory_snapshot\<close> lists, and the header that \<^verbatim>\<open>device_read\<close> or \<^verbatim>\<open>fs_read\<close>
  delivers (\<open>None\<close> for a non-zero status).
\<close>

record command_env =
  locate_image :: "string \<Rightarrow> bool"
  memory_snapshot :: "u64 list"
  read_header :: "mezzano_header option"

text \<open>The checks on the header, in the order of the source.\<close>

definition check_header :: "mezzano_header \<Rightarrow> config_error + mezzano_header" where
  "check_header h =
     (if magic h \<noteq> mezzano_magic then Inl Bad_Header
      else if protocol_major h \<noteq> mezzano_protocol_major then Inl Unsupported_Protocol_Major
      else if (protocol_major h = 0 \<and> protocol_minor h \<noteq> mezzano_protocol_minor)
            \<or> (protocol_major h \<noteq> 0 \<and> protocol_minor h > mezzano_protocol_minor)
           then Inl Unsupported_Protocol_Minor
      else Inr h)"

text \<open>
  The command returns \<^verbatim>\<open>false\<close> after a \<^verbatim>\<open>config_error\<close> (\<open>Inl\<close>), or \<^verbatim>\<open>true\<close> after
  handing the loader data to \<^verbatim>\<open>environ_set_loader\<close> (\<open>Inr\<close>).
\<close>

definition config_cmd_mezzano :: "value_t list \<Rightarrow> command_env \<Rightarrow> config_error + mezzano_loader" where
  "config_cmd_mezzano args env =
     (case args of
        [] \<Rightarrow> Inl Invalid_Arguments
      | Value_Other # rest \<Rightarrow> Inl Invalid_Arguments
      | Value_String path # rest \<Rightarrow>
          if \<not> locate_image env path then Inl Image_Not_Located
          else
            (case parse_options rest (zero_loader, False) of
               Inl err \<Rightarrow> Inl err
             | Inr (data, skip_memory_test) \<Rightarrow>
                 if \<not> skip_memory_test
                    \<and> foldl (+) 0 (memory_snapshot env) < 500 * 1024 * 1024
                 then Inl Insufficient_Memory
                 else
                   (case read_header env of
                      None \<Rightarrow> Inl Header_IO_Error
                    | Some h \<Rightarrow>
                        (case check_header h of
                           Inl err \<Rightarrow> Inl err
                         | Inr h' \<Rightarrow> Inr (data\<lparr>header := h'\<rparr>)))))"

text \<open>A header with the right magic and the given protocol version, everything else zero.\<close>

definition header_with_version :: "u16 \<Rightarrow> u16 \<Rightarrow> mezzano_header" where
  "header_with_version major minor =
     \<lparr> magic = mezzano_magic, uuid = replicate 16 0, protocol_major = major,
       protocol_minor = minor, entry_fref = 0, initial_process = 0, nil = 0,
       architecture = 1, initial_stack_pointer = 0, bml4 = 0, freelist_head = 0 \<rparr>"

text \<open>An environment in which the image is found, 512 MiB are present and the header is \<open>h\<close>.\<close>

definition env_with_header :: "mezzano_header \<Rightarrow> command_env" where
  "env_with_header h =
     \<lparr> locate_image = (\<lambda>path. True), memory_snapshot = [0x20000000], read_header = Some h \<rparr>"

section \<open>Page-info array and buddy allocator (loader/mezzano.c)\<close>

definition PAGE_SIZE :: u64 where
  "PAGE_SIZE = 0x1000"

text \<open>\<^verbatim>\<open>enum page_type\<close>, by value.\<close>

definition page_type_other :: u64 where "page_type_other = 0"
definition page_type_free :: u64 where "page_type_free = 1"
definition page_type_wired :: u64 where "page_type_wired = 2"
definition page_type_wired_backing :: u64 where "page_type_wired_backing = 3"
definition page_type_active :: u64 where "page_type_active = 4"
definition page_type_active_writeback :: u64 where "page_type_active_writeback = 5"
definition page_type_inactive_writeback :: u64 where "page_type_inactive_writeback = 6"
definition page_type_page_table :: u64 where "page_type_page_table = 7"

record mezzano_page_info =
  flags :: u64
  extra :: u64
  "next" :: u64
  prev :: u64

text \<open>
  The accessors reach the info struct of physical page \<open>page\<close> through the kernel context, at
  \<^verbatim>\<open>mezzano_physical_info_address + (page / PAGE_SIZE) * sizeof(mezzano_page_info_t)\<close> plus
  the offset of the field, with \<^verbatim>\<open>mmu_memcpy_from\<close> and \<^verbatim>\<open>mmu_memcpy_to\<close>, whose results they
  ignore. The model keeps what the context holds there: one info struct per frame number
  (distinct frame numbers give distinct addresses, \<open>page / PAGE_SIZE\<close> being below \<open>2^52\<close>).
  This is the source for the frames whose info struct is mapped, which
  \<^verbatim>\<open>mezzano_finalize_memory_map\<close> does for the pages of the memory map; for another frame the
  source reads nothing and stores nothing, so the statements about the accessors are made
  for pages of the memory map (\<open>page_exists\<close>) only.
\<close>

type_synonym info_window = "u64 \<Rightarrow> mezzano_page_info"

definition page_info_flags :: "info_window \<Rightarrow> u64 \<Rightarrow> u64" where
  "page_info_flags mmu page = flags (mmu (page div PAGE_SIZE))"

definition set_page_info_flags :: "info_window \<Rightarrow> u64 \<Rightarrow> u64 \<Rightarrow> info_window" where
  "set_page_info_flags mmu page v =
     mmu(page div PAGE_SIZE := (mmu (page div PAGE_SIZE))\<lparr>flags := v\<rparr>)"

definition page_info_type :: "info_window \<Rightarrow> u64 \<Rightarrow> u64" where
  "page_info_type mmu page = unfixnum (page_info_flags mmu page) AND 0xFF"

definition set_page_info_type :: "info_window \<Rightarrow> u64 \<Rightarrow> u64 \<Rightarrow> info_window" where
  "set_page_info_type mmu page v =
     (let f0 = unfixnum (page_info_flags mmu page);
          f1 = f0 AND NOT 0xFF;
          f2 = f1 OR v
      in set_page_info_flags mmu page (fixnum f2))"

definition page_info_bin :: "info_window \<Rightarrow> u64 \<Rightarrow> u8" where
  "page_info_bin mmu page = ucast (signed_drop_bit 8 (unfixnum (page_info_flags mmu page)) AND 0xFF)"

definition set_page_info_bin :: "info_window \<Rightarrow> u64 \<Rightarrow> u8 \<Rightarrow> info_window" where
  "set_page_info_bin mmu page v =
     (let f0 = unfixnum (page_info_flags mmu page);
          f1 = f0 AND NOT (push_bit 8 0xFF);
          f2 = f1 OR push_bit 8 (ucast v)
      in set_page_info_flags mmu page (fixnum f2))"

definition set_page_info_extra :: "info_window \<Rightarrow> u64 \<Rightarrow> u64 \<Rightarrow> info_window" where
  "set_page_info_extra mmu page v =
     mmu(page div PAGE_SIZE := (mmu (page div PAGE_SIZE))\<lparr>extra := v\<rparr>)"

definition page_info_next :: "info_window \<Rightarrow> u64 \<Rightarrow> u64" where
  "page_info_next mmu page = next (mmu (page div PAGE_SIZE))"

definition set_page_info_next :: "info_window \<Rightarrow> u64 \<Rightarrow> u64 \<Rightarrow> info_window" where
  "set_page_info_next mmu page v =
     mmu(page div PAGE_SIZE := (mmu (page div PAGE_SIZE))\<lparr>next := v\<rparr>)"

definition page_info_prev :: "info_window \<Rightarrow> u64 \<Rightarrow> u64" where
  "page_info_prev mmu page = prev (mmu (page div PAGE_SIZE))"

definition set_page_info_prev :: "info_window \<Rightarrow> u64 \<Rightarrow> u64 \<Rightarrow> info_window" where
  "set_page_info_prev mmu page v =
     mmu(page div PAGE_SIZE := (mmu (page div PAGE_SIZE))\<lparr>prev := v\<rparr>)"

definition buddy :: "nat \<Rightarrow> u64 \<Rightarrow> u64" where
  "buddy k x = x XOR push_bit (k + log2_4k_page) 1"

text \<open>The loop of \<^verbatim>\<open>page_exists\<close>, from index \<open>i\<close> on.\<close>

function page_exists_from :: "mezzano_boot_information \<Rightarrow> u64 \<Rightarrow> u64 \<Rightarrow> bool" where
  "page_exists_from boot_info page i =
     (if i < n_memory_map_entries boot_info then
        if start (memory_map boot_info ! unat i) \<le> page
           \<and> page < end' (memory_map boot_info ! unat i)
        then True
        else page_exists_from boot_info page (i + 1)
      else False)"
  by pat_completeness auto
termination
proof (relation "measure (\<lambda>(b, page, i). unat (n_memory_map_entries b) - unat i)")
  show "wf (measure (\<lambda>(b, page, i). unat (n_memory_map_entries b) - unat i))"
    by simp
next
  fix boot_info :: mezzano_boot_information and page i :: u64
  assume lt: "i < n_memory_map_entries boot_info"
  have below: "unat i < unat (n_memory_map_entries boot_info)"
    using lt by (simp add: word_less_nat_alt)
  moreover have "unat (n_memory_map_entries boot_info) < 2 ^ 64"
    using unsigned_less [of "n_memory_map_entries boot_info"] by simp
  ultimately have "unat i + unat (1 :: u64) < 2 ^ LENGTH(64)"
    by simp
  then have "unat (i + 1) = unat i + 1"
    by (simp add: unat_add_lem [THEN iffD1])
  with below show "((boot_info, page, i + 1), (boot_info, page, i))
      \<in> measure (\<lambda>(b, page, i). unat (n_memory_map_entries b) - unat i)"
    by simp
qed

declare page_exists_from.simps [simp del]

definition page_exists :: "mezzano_boot_information \<Rightarrow> u64 \<Rightarrow> bool" where
  "page_exists boot_info page = page_exists_from boot_info page 0"

text \<open>
  \<^verbatim>\<open>mezzano_buddy_bin_t *buddies\<close> points at one of the two bin arrays of the boot
  information; the model names the array and reads and writes a bin through the name.
\<close>

datatype bin_array = Buddy_Bin_32 | Buddy_Bin_64

definition buddies_of :: "bin_array \<Rightarrow> mezzano_boot_information \<Rightarrow> mezzano_buddy_bin list" where
  "buddies_of sel boot_info =
     (case sel of Buddy_Bin_32 \<Rightarrow> buddy_bin_32 boot_info | Buddy_Bin_64 \<Rightarrow> buddy_bin_64 boot_info)"

definition set_bin ::
  "bin_array \<Rightarrow> nat \<Rightarrow> mezzano_buddy_bin \<Rightarrow> mezzano_boot_information \<Rightarrow> mezzano_boot_information" where
  "set_bin sel k b boot_info =
     (case sel of
        Buddy_Bin_32 \<Rightarrow> boot_info\<lparr>buddy_bin_32 := (buddy_bin_32 boot_info)[k := b]\<rparr>
      | Buddy_Bin_64 \<Rightarrow> boot_info\<lparr>buddy_bin_64 := (buddy_bin_64 boot_info)[k := b]\<rparr>)"

definition bin_first_page :: "bin_array \<Rightarrow> nat \<Rightarrow> mezzano_boot_information \<Rightarrow> u64" where
  "bin_first_page sel k boot_info = first_page (buddies_of sel boot_info ! k)"

definition bin_count :: "bin_array \<Rightarrow> nat \<Rightarrow> mezzano_boot_information \<Rightarrow> u64" where
  "bin_count sel k boot_info = count (buddies_of sel boot_info ! k)"

definition set_bin_first_page ::
  "bin_array \<Rightarrow> nat \<Rightarrow> u64 \<Rightarrow> mezzano_boot_information \<Rightarrow> mezzano_boot_information" where
  "set_bin_first_page sel k v boot_info =
     set_bin sel k ((buddies_of sel boot_info ! k)\<lparr>first_page := v\<rparr>) boot_info"

definition set_bin_count ::
  "bin_array \<Rightarrow> nat \<Rightarrow> u64 \<Rightarrow> mezzano_boot_information \<Rightarrow> mezzano_boot_information" where
  "set_bin_count sel k v boot_info =
     set_bin sel k ((buddies_of sel boot_info ! k)\<lparr>count := v\<rparr>) boot_info"

text \<open>The test that ends the \<^verbatim>\<open>while(1)\<close> loop of \<^verbatim>\<open>buddy_free_page\<close>, as the source writes it.\<close>

definition stop_combining ::
  "info_window \<Rightarrow> mezzano_boot_information \<Rightarrow> nat \<Rightarrow> nat \<Rightarrow> u64 \<Rightarrow> bool" where
  "stop_combining mmu boot_info m k p \<longleftrightarrow>
     k = m \<or>
     \<not> page_exists boot_info p \<or>
     page_info_type mmu p \<noteq> page_type_free \<or>
     (page_info_type mmu p = page_type_free \<and> unat (page_info_bin mmu p) \<noteq> k)"

text \<open>The loop body after the test: take the buddy \<open>p\<close> out of the list of bin \<open>k\<close>.\<close>

definition remove_buddy ::
  "info_window \<times> mezzano_boot_information \<Rightarrow> u64 \<Rightarrow> bin_array \<Rightarrow> nat \<Rightarrow> u64
     \<Rightarrow> info_window \<times> mezzano_boot_information" where
  "remove_buddy st nilv sel k p =
     (let (mmu, boot_info) = st;
          boot_info1 =
            (if bin_first_page sel k boot_info = fixnum (p div PAGE_SIZE)
             then set_bin_first_page sel k (page_info_next mmu p) boot_info
             else boot_info);
          mmu1 =
            (if page_info_next mmu p \<noteq> nilv
             then set_page_info_prev mmu (unfixnum (page_info_next mmu p) * PAGE_SIZE)
                    (page_info_prev mmu p)
             else mmu);
          mmu2 =
            (if page_info_prev mmu1 p \<noteq> nilv
             then set_page_info_next mmu1 (unfixnum (page_info_prev mmu1 p) * PAGE_SIZE)
                    (page_info_next mmu1 p)
             else mmu1);
          boot_info2 = set_bin_count sel k (bin_count sel k boot_info1 - fixnum 1) boot_info1
      in (mmu2, boot_info2))"

text \<open>
  The \<^verbatim>\<open>while(1)\<close> loop, entered with order \<open>k\<close> and page \<open>l\<close>; it returns the state together
  with the final \<open>k\<close> and \<open>l\<close>. In the source \<open>k\<close> starts at 0 and \<open>m\<close> is 19 or 26, so \<open>k\<close>
  never passes \<open>m\<close>; the model stops there as well, which makes the recursion total.
\<close>

function combine_loop ::
  "info_window \<times> mezzano_boot_information \<Rightarrow> u64 \<Rightarrow> bin_array \<Rightarrow> nat \<Rightarrow> nat \<Rightarrow> u64
     \<Rightarrow> (info_window \<times> mezzano_boot_information) \<times> nat \<times> u64" where
  "combine_loop st nilv sel m k l =
     (let p = buddy k l in
      if stop_combining (fst st) (snd st) m k p then (st, k, l)
      else if m < k then (st, k, l)
      else combine_loop (remove_buddy st nilv sel k p) nilv sel m (k + 1) (if p < l then p else l))"
  by pat_completeness auto
termination
  by (relation "measure (\<lambda>(st, nilv, sel, m, k, l). m - k)")
     (auto simp: stop_combining_def)

declare combine_loop.simps [simp del]

text \<open>The statements after the loop: put \<open>l\<close> at the head of the list of bin \<open>k\<close>.\<close>

definition push_free ::
  "info_window \<times> mezzano_boot_information \<Rightarrow> u64 \<Rightarrow> bin_array \<Rightarrow> nat \<Rightarrow> u64
     \<Rightarrow> info_window \<times> mezzano_boot_information" where
  "push_free st nilv sel k l =
     (let (mmu, boot_info) = st;
          mmu1 = set_page_info_type mmu l page_type_free;
          mmu2 = set_page_info_bin mmu1 l (of_nat k);
          mmu3 = set_page_info_next mmu2 l (bin_first_page sel k boot_info);
          mmu4 = set_page_info_prev mmu3 l nilv;
          mmu5 =
            (if bin_first_page sel k boot_info \<noteq> nilv
             then set_page_info_prev mmu4 (unfixnum (bin_first_page sel k boot_info) * PAGE_SIZE)
                    (fixnum (l div PAGE_SIZE))
             else mmu4);
          boot_info1 = set_bin_first_page sel k (fixnum (l div PAGE_SIZE)) boot_info;
          boot_info2 = set_bin_count sel k (bin_count sel k boot_info1 + fixnum 1) boot_info1
      in (mmu5, boot_info2))"

text \<open>The array and the last bin index that \<^verbatim>\<open>buddy_free_page\<close> picks for page \<open>l\<close>.\<close>

definition select_buddies :: "u64 \<Rightarrow> bin_array \<times> nat" where
  "select_buddies l =
     (if l < 0x100000000 then (Buddy_Bin_32, mezzano_n_buddy_bins_32_bit - 1)
      else (Buddy_Bin_64, mezzano_n_buddy_bins_64_bit - 1))"

definition buddy_free_page ::
  "info_window \<times> mezzano_boot_information \<Rightarrow> u64 \<Rightarrow> u64
     \<Rightarrow> info_window \<times> mezzano_boot_information" where
  "buddy_free_page st nilv l =
     (let (sel, m) = select_buddies l;
          (st1, k, l1) = combine_loop st nilv sel m 0 l
      in push_free st1 nilv sel k l1)"

text \<open>
  The initialisation of the bins in \<^verbatim>\<open>mezzano_loader_load\<close>: every bin gets
  \<^verbatim>\<open>first_page = nil\<close> and \<^verbatim>\<open>count = fixnum(0)\<close>.
\<close>

definition init_buddy_bins :: "mezzano_boot_information \<Rightarrow> u64 \<Rightarrow> mezzano_boot_information" where
  "init_buddy_bins boot_info nilv =
     boot_info\<lparr>
       buddy_bin_32 := replicate mezzano_n_buddy_bins_32_bit \<lparr>first_page = nilv, count = fixnum 0\<rparr>,
       buddy_bin_64 := replicate mezzano_n_buddy_bins_64_bit \<lparr>first_page = nilv, count = fixnum 0\<rparr>\<rparr>"

section \<open>Loading the pages of the image (loader/mezzano.c, \<^verbatim>\<open>load_page\<close>)\<close>

definition BLOCK_MAP_PRESENT :: u64 where "BLOCK_MAP_PRESENT = 0x01"
definition BLOCK_MAP_WRITABLE :: u64 where "BLOCK_MAP_WRITABLE = 0x02"
definition BLOCK_MAP_ZERO_FILL :: u64 where "BLOCK_MAP_ZERO_FILL = 0x04"
definition BLOCK_MAP_WIRED :: u64 where "BLOCK_MAP_WIRED = 0x10"
definition BLOCK_MAP_TRACK_DIRTY :: u64 where "BLOCK_MAP_TRACK_DIRTY = 0x20"
definition BLOCK_MAP_TRANSIENT :: u64 where "BLOCK_MAP_TRANSIENT = 0x40"
definition BLOCK_MAP_FLAG_MASK :: u64 where "BLOCK_MAP_FLAG_MASK = 0xFF"
definition BLOCK_MAP_ID_SHIFT :: nat where "BLOCK_MAP_ID_SHIFT = 8"

text \<open>
  A 4 KiB block of the image, as the 512 64-bit words the block map reads it as, and the
  image: \<open>disk id\<close> is what \<^verbatim>\<open>device_read\<close> or \<^verbatim>\<open>fs_read\<close> delivers for the 4 KiB at offset
  \<open>id * 0x1000\<close>, \<open>None\<close> when the status is not zero.
\<close>

type_synonym block_data = "u64 list"
type_synonym image = "u64 \<Rightarrow> block_data option"

definition zero_block :: block_data where
  "zero_block = replicate 512 0"

text \<open>\<^verbatim>\<open>page_chunk_t\<close> and \<^verbatim>\<open>PAGE_CHUNK_SIZE\<close>.\<close>

record page_chunk =
  bootloader_virt :: u64
  phys_addr :: u64
  remaining :: u64

definition PAGE_CHUNK_SIZE :: u64 where
  "PAGE_CHUNK_SIZE = 8 * 1024 * 1024"

text \<open>
  \<^verbatim>\<open>boot_error\<close> does not return: the call in \<^verbatim>\<open>load_page\<close> with the entry and the virtual
  address, and the call in \<^verbatim>\<open>read_cached_block\<close> with the block id.
\<close>

datatype boot_error = Could_Not_Read_Block u64 u64 | Could_Not_Read_Cached_Block u64

text \<open>
  What \<^verbatim>\<open>load_page\<close> works on: the loader data, the kernel context (the mappings made in it,
  a virtual page to its frame and whether it is writable, and its page-info window), the
  frames as the loader sees them through \<^verbatim>\<open>bootloader_virt\<close>, and the page allocator.
\<close>

record load_state =
  loader :: mezzano_loader
  kernel_map :: "u64 \<rightharpoonup> u64 \<times> bool"
  infos :: info_window
  frames :: "u64 \<Rightarrow> block_data"
  pool :: u64

text \<open>
  Modelled from the spec: \<^verbatim>\<open>memory_alloc\<close>, the page allocator of the boot loader, is not
  among these sources. The spec has it as a linear pool that hands out page-granular ranges
  and never takes a frame back; the loader addresses the range it gets at the physical
  address itself.
\<close>

definition memory_alloc :: "load_state \<Rightarrow> u64 \<Rightarrow> (u64 \<times> u64) \<times> load_state" where
  "memory_alloc st sz = ((pool st, pool st), st\<lparr>pool := pool st + sz\<rparr>)"

text \<open>
  Modelled from the spec: the \<^verbatim>\<open>mmu_map\<close> with a cache type and a write flag that this
  version of the loader calls is not among these sources. For one page the spec has it map
  \<open>virt\<close> to \<open>phys\<close> in the context, writable or not.
\<close>

definition mmu_map_page :: "load_state \<Rightarrow> u64 \<Rightarrow> u64 \<Rightarrow> bool \<Rightarrow> load_state" where
  "mmu_map_page st virt phys writable = st\<lparr>kernel_map := (kernel_map st)(virt \<mapsto> (phys, writable))\<rparr>"

definition load_page ::
  "load_state \<Rightarrow> image \<Rightarrow> u64 \<Rightarrow> u64 \<Rightarrow> page_chunk \<Rightarrow> boot_error + (load_state \<times> page_chunk)" where
  "load_page st disk info virtual chunk =
     (if info AND BLOCK_MAP_PRESENT = 0 \<or> info AND BLOCK_MAP_TRANSIENT \<noteq> 0 then Inr (st, chunk)
      else
        let (st1, chunk1) =
              (if remaining chunk = 0 then
                 let chunk_size =
                       min PAGE_CHUNK_SIZE
                         ((page_count (loader st) - n_pages_loaded (loader st)) * PAGE_SIZE);
                     ((virt, phys), st') = memory_alloc st chunk_size
                 in (st', \<lparr>bootloader_virt = virt, phys_addr = phys, remaining = chunk_size\<rparr>)
               else (st, chunk));
            phys = phys_addr chunk1;
            bvirt = bootloader_virt chunk1;
            chunk2 = \<lparr>bootloader_virt = bootloader_virt chunk1 + PAGE_SIZE,
                      phys_addr = phys_addr chunk1 + PAGE_SIZE,
                      remaining = remaining chunk1 - PAGE_SIZE\<rparr>;
            st2 = mmu_map_page st1 virtual phys
                    (info AND BLOCK_MAP_WRITABLE \<noteq> 0 \<and> \<not> info AND BLOCK_MAP_TRACK_DIRTY \<noteq> 0);
            st3 = st2\<lparr>infos := set_page_info_extra (infos st2) phys
                                  (fixnum (drop_bit BLOCK_MAP_ID_SHIFT info))\<rparr>;
            st4 = (if info AND BLOCK_MAP_WIRED \<noteq> 0
                   then st3\<lparr>infos := set_page_info_type (infos st3) phys page_type_wired\<rparr>
                   else st3\<lparr>infos := set_page_info_type (infos st3) phys page_type_active\<rparr>);
            loaded =
              (if info AND BLOCK_MAP_ZERO_FILL \<noteq> 0
               then Inr (st4\<lparr>frames := (frames st4)(bvirt := zero_block)\<rparr>)
               else
                 (case disk (drop_bit BLOCK_MAP_ID_SHIFT info) of
                    None \<Rightarrow> Inl (Could_Not_Read_Block info virtual)
                  | Some blk \<Rightarrow> Inr (st4\<lparr>frames := (frames st4)(bvirt := blk)\<rparr>)))
        in case loaded of
             Inl err \<Rightarrow> Inl err
           | Inr st5 \<Rightarrow>
               Inr (st5\<lparr>loader := (loader st5)\<lparr>n_pages_loaded := n_pages_loaded (loader st5) + 1\<rparr>\<rparr>,
                    chunk2))"

text \<open>
  The test in the innermost loop of \<^verbatim>\<open>mezzano_read_wired_pages\<close>: which level-1 entries it
  hands to \<^verbatim>\<open>load_page\<close>.
\<close>

definition handed_to_load_page :: "mezzano_loader \<Rightarrow> u64 \<Rightarrow> bool" where
  "handed_to_load_page ld entry \<longleftrightarrow> \<not> (\<not> freestanding ld \<and> entry AND BLOCK_MAP_WIRED = 0)"

text \<open>The frame that \<^verbatim>\<open>load_page\<close> takes for the page: the head of the chunk, or of a new chunk.\<close>

definition frame_taken :: "load_state \<Rightarrow> page_chunk \<Rightarrow> u64" where
  "frame_taken st chunk = (if remaining chunk = 0 then pool st else phys_addr chunk)"

text \<open>A state for examples: a freestanding loader with two pages to load, nothing mapped.\<close>

definition freestanding_state :: load_state where
  "freestanding_state =
     \<lparr> loader = zero_loader\<lparr>freestanding := True, page_count := 2\<rparr>,
       kernel_map = Map.empty,
       infos = (\<lambda>f. \<lparr>flags = 0, extra = 0, next = 0, prev = 0\<rparr>),
       frames = (\<lambda>a. zero_block),
       pool = 0x200000 \<rparr>"

definition empty_chunk :: page_chunk where
  "empty_chunk = \<lparr>bootloader_virt = 0, phys_addr = 0, remaining = 0\<rparr>"

section \<open>Block-map walker (loader/mezzano.c, \<^verbatim>\<open>read_info_for_page\<close>)\<close>

text \<open>
  The block cache: the singly linked list of \<^verbatim>\<open>block_cache_entry_t\<close> as a list, head first.
  The page that holds the data of a new entry comes from the page allocator, which plays no
  part in what is read.
\<close>

record block_cache_entry =
  block :: u64
  data :: block_data

text \<open>The search loop of \<^verbatim>\<open>read_cached_block\<close>: the first entry for the block, unlinked.\<close>

fun take_cached ::
  "block_cache_entry list \<Rightarrow> u64 \<Rightarrow> (block_cache_entry \<times> block_cache_entry list) option" where
  "take_cached [] block_id = None"
| "take_cached (e # es) block_id =
     (if block e = block_id then Some (e, es)
      else (case take_cached es block_id of
              None \<Rightarrow> None
            | Some (hit, rest) \<Rightarrow> Some (hit, e # rest)))"

definition read_cached_block ::
  "block_cache_entry list \<Rightarrow> image \<Rightarrow> u64 \<Rightarrow> boot_error + (block_data \<times> block_cache_entry list)" where
  "read_cached_block cache disk block_id =
     (case take_cached cache block_id of
        Some (e, rest) \<Rightarrow> Inr (data e, e # rest)
      | None \<Rightarrow>
          (case disk block_id of
             None \<Rightarrow> Inl (Could_Not_Read_Cached_Block block_id)
           | Some d \<Rightarrow> Inr (d, \<lparr>block = block_id, data = d\<rparr> # cache)))"

text \<open>
  \<^verbatim>\<open>read_info_for_page\<close>, with the cache of the loader, the image and the root
  \<^verbatim>\<open>loader->header.bml4\<close> as arguments; it returns the entry and the cache. The local
  pointers \<^verbatim>\<open>bml4\<close> to \<^verbatim>\<open>bml1\<close> of the source are the blocks \<open>bml4_block\<close> to \<open>bml1_block\<close>.
\<close>

definition read_info_for_page ::
  "block_cache_entry list \<Rightarrow> image \<Rightarrow> u64 \<Rightarrow> u64 \<Rightarrow> boot_error + (u64 \<times> block_cache_entry list)" where
  "read_info_for_page cache disk root virtual =
     (let bml4i = drop_bit 39 virtual AND 0x1FF;
          bml3i = drop_bit 30 virtual AND 0x1FF;
          bml2i = drop_bit 21 virtual AND 0x1FF;
          bml1i = drop_bit 12 virtual AND 0x1FF
      in case read_cached_block cache disk root of
           Inl err \<Rightarrow> Inl err
         | Inr (bml4_block, cache1) \<Rightarrow>
             if bml4_block ! unat bml4i AND BLOCK_MAP_PRESENT = 0 then Inr (0, cache1)
             else
               (case read_cached_block cache1 disk (drop_bit BLOCK_MAP_ID_SHIFT (bml4_block ! unat bml4i)) of
                  Inl err \<Rightarrow> Inl err
                | Inr (bml3_block, cache2) \<Rightarrow>
                    if bml3_block ! unat bml3i AND BLOCK_MAP_PRESENT = 0 then Inr (0, cache2)
                    else
                      (case read_cached_block cache2 disk
                              (drop_bit BLOCK_MAP_ID_SHIFT (bml3_block ! unat bml3i)) of
                         Inl err \<Rightarrow> Inl err
                       | Inr (bml2_block, cache3) \<Rightarrow>
                           if bml2_block ! unat bml2i AND BLOCK_MAP_PRESENT = 0 then Inr (0, cache3)
                           else
                             (case read_cached_block cache3 disk
                                     (drop_bit BLOCK_MAP_ID_SHIFT (bml2_block ! unat bml2i)) of
                                Inl err \<Rightarrow> Inl err
                              | Inr (bml1_block, cache4) \<Rightarrow> Inr (bml1_block ! unat bml1i, cache4)))))"

text \<open>Every cached block holds what the image holds for it.\<close>

definition cache_ok :: "image \<Rightarrow> block_cache_entry list \<Rightarrow> bool" where
  "cache_ok disk cache = list_all (\<lambda>e. disk (block e) = Some (data e)) cache"

text \<open>The index of a virtual address at the level whose index starts at bit \<open>shift\<close>.\<close>

definition bml_index :: "nat \<Rightarrow> u64 \<Rightarrow> nat" where
  "bml_index shift v = unat (drop_bit shift v AND 0x1FF)"

text \<open>
  A block of 512 entries in which the entry at index \<open>i\<close> is PRESENT and no other entry is.
\<close>

definition lone_present :: "block_data \<Rightarrow> nat \<Rightarrow> bool" where
  "lone_present blk i \<longleftrightarrow>
     length blk = 512 \<and> blk ! i AND BLOCK_MAP_PRESENT \<noteq> 0
     \<and> list_all (\<lambda>j. j = i \<or> blk ! j AND BLOCK_MAP_PRESENT = 0) [0..<512]"

text \<open>
  A block map under \<open>root\<close> in which the page of \<open>v0\<close> is the only one PRESENT, with the
  level-1 entry \<open>e0\<close>: on the path of \<open>v0\<close> each block has its one PRESENT entry at the index
  of \<open>v0\<close>.
\<close>

definition single_page_map :: "image \<Rightarrow> u64 \<Rightarrow> u64 \<Rightarrow> u64 \<Rightarrow> bool" where
  "single_page_map disk root v0 e0 =
     (case disk root of
        None \<Rightarrow> False
      | Some b4 \<Rightarrow>
          lone_present b4 (bml_index 39 v0) \<and>
          (case disk (drop_bit BLOCK_MAP_ID_SHIFT (b4 ! bml_index 39 v0)) of
             None \<Rightarrow> False
           | Some b3 \<Rightarrow>
               lone_present b3 (bml_index 30 v0) \<and>
               (case disk (drop_bit BLOCK_MAP_ID_SHIFT (b3 ! bml_index 30 v0)) of
                  None \<Rightarrow> False
                | Some b2 \<Rightarrow>
                    lone_present b2 (bml_index 21 v0) \<and>
                    (case disk (drop_bit BLOCK_MAP_ID_SHIFT (b2 ! bml_index 21 v0)) of
                       None \<Rightarrow> False
                     | Some b1 \<Rightarrow>
                         lone_present b1 (bml_index 12 v0) \<and> b1 ! bml_index 12 v0 = e0))))"

text \<open>Two addresses with the same level-1 block, and with the same page.\<close>

definition same_level1_block :: "u64 \<Rightarrow> u64 \<Rightarrow> bool" where
  "same_level1_block v w \<longleftrightarrow>
     bml_index 39 v = bml_index 39 w \<and> bml_index 30 v = bml_index 30 w
     \<and> bml_index 21 v = bml_index 21 w"

definition same_page :: "u64 \<Rightarrow> u64 \<Rightarrow> bool" where
  "same_page v w \<longleftrightarrow> same_level1_block v w \<and> bml_index 12 v = bml_index 12 w"

text \<open>
  The synthetic block map of the example: root block 1, then blocks 2, 3 and 4 on the path
  of \<open>0xDEADBEEF0000\<close> (indices 445, 182, 503 and 240), whose level-1 entry is PRESENT with
  data block 42; the entry of the next page holds a data block but is not PRESENT.
\<close>

definition example_block :: "nat \<Rightarrow> u64 \<Rightarrow> block_data" where
  "example_block i e = (replicate 512 0)[i := e]"

definition example_image :: image where
  "example_image =
     (\<lambda>block_id. None)
       (1 := Some (example_block 445 0x201),
        2 := Some (example_block 182 0x301),
        3 := Some (example_block 503 0x401),
        4 := Some ((example_block 240 0x2A01)[241 := 0x2B00]))"

text \<open>
  The walk as the specification words it, without the cache: at each of the levels 4, 3
  and 2 read the entry at the index of the address in the block; if it is not PRESENT the
  result is 0, else go on in the block numbered \<open>entry >> 8\<close>; at level 1 the entry itself
  is the result.
\<close>

definition spec_level_entry :: "image \<Rightarrow> u64 \<Rightarrow> nat \<Rightarrow> u64 \<Rightarrow> boot_error + u64" where
  "spec_level_entry disk block_id shift v =
     (case disk block_id of
        None \<Rightarrow> Inl (Could_Not_Read_Cached_Block block_id)
      | Some b \<Rightarrow> Inr (b ! bml_index shift v))"

fun spec_descend :: "image \<Rightarrow> nat list \<Rightarrow> u64 \<Rightarrow> u64 \<Rightarrow> boot_error + u64" where
  "spec_descend disk [] block_id v = spec_level_entry disk block_id 12 v"
| "spec_descend disk (shift # shifts) block_id v =
     (case spec_level_entry disk block_id shift v of
        Inl err \<Rightarrow> Inl err
      | Inr entry \<Rightarrow>
          if entry AND BLOCK_MAP_PRESENT = 0 then Inr 0
          else spec_descend disk shifts (drop_bit 8 entry) v)"

definition spec_read_info :: "image \<Rightarrow> u64 \<Rightarrow> u64 \<Rightarrow> boot_error + u64" where
  "spec_read_info disk root v = spec_descend disk [39, 30, 21] root v"

section \<open>arm64 paging writer (arch/arm64 \<^verbatim>\<open>mmu.c\<close>, \<^verbatim>\<open>arm64/mmu.h\<close>)\<close>

definition ARM64_TTE_PRESENT :: u64 where "ARM64_TTE_PRESENT = push_bit 0 1"
definition ARM64_TTE_TABLE :: u64 where "ARM64_TTE_TABLE = push_bit 1 1"
definition ARM64_TTE_PAGE :: u64 where "ARM64_TTE_PAGE = push_bit 1 1"
definition ARM64_TTE_AF :: u64 where "ARM64_TTE_AF = push_bit 10 1"
definition ARM64_TTE_AP_P_RW_U_NA :: u64 where "ARM64_TTE_AP_P_RW_U_NA = push_bit 6 0"
definition ARM64_TTE_SH_INNER_SHAREABLE :: u64 where "ARM64_TTE_SH_INNER_SHAREABLE = push_bit 8 3"
definition ARM64_TTE_ADDR_MASK :: u64 where "ARM64_TTE_ADDR_MASK = 0x00007ffffffff000"
definition ARM64_TTL1_RANGE :: u64 where "ARM64_TTL1_RANGE = 0x8000000000"
definition ARM64_TTL2_RANGE :: u64 where "ARM64_TTL2_RANGE = 0x40000000"
definition ARM64_TTL3_RANGE :: u64 where "ARM64_TTL3_RANGE = 0x200000"

text \<open>
  \<^verbatim>\<open>LARGE_PAGE_SIZE\<close> comes from \<^verbatim>\<open>arch/page.h\<close>, which is not among these sources; the large pages
  of the specification are 2 MiB, the range of one level-3 table.
\<close>

definition LARGE_PAGE_SIZE :: u64 where "LARGE_PAGE_SIZE = 0x200000"

record mmu_context =
  ttbr0 :: u64
  ttbr1 :: u64
  phys_type :: nat

definition is_canonical_addr :: "u64 \<Rightarrow> bool" where
  "is_canonical_addr addr \<longleftrightarrow> signed_drop_bit 48 addr + 1 \<le> 1"

definition is_canonical_range :: "u64 \<Rightarrow> u64 \<Rightarrow> bool" where
  "is_canonical_range start_addr sz =
     (let end_addr = start_addr + sz - 1
      in is_canonical_addr start_addr \<and> is_canonical_addr end_addr
         \<and> start_addr AND push_bit 48 1 = end_addr AND push_bit 48 1)"

text \<open>
  Physical memory as the paging code uses it. The loader reaches a physical address
  through \<^verbatim>\<open>phys_to_virt\<close>, which leaves the address as it is. The translation tables are
  arrays of 64-bit entries and everything else is read and written as bytes: the model
  keeps the table entries, by the physical address of the entry, apart from the bytes of
  the data frames, which is the memory as long as no table frame is also mapped as data.
  A pointer to a table is \<open>None\<close> for \<^verbatim>\<open>NULL\<close> and the address of the table otherwise.
  Modelled from the spec: \<^verbatim>\<open>memory_alloc\<close>, a linear pool that hands out page frames and
  takes none back; \<open>next_frame\<close> is the next frame it hands out.
\<close>

record phys_memory =
  ttes :: "u64 \<Rightarrow> u64"
  contents :: "u64 \<Rightarrow> u8"
  next_frame :: u64

definition tte :: "phys_memory \<Rightarrow> u64 \<Rightarrow> u64 \<Rightarrow> u64" where
  "tte mem table i = ttes mem (table + 8 * i)"

definition set_tte :: "phys_memory \<Rightarrow> u64 \<Rightarrow> u64 \<Rightarrow> u64 \<Rightarrow> phys_memory" where
  "set_tte mem table i v = mem\<lparr>ttes := (ttes mem)(table + 8 * i := v)\<rparr>"

text \<open>\<^verbatim>\<open>allocate_structure\<close>: a fresh frame, cleared.\<close>

definition allocate_structure :: "mmu_context \<Rightarrow> phys_memory \<Rightarrow> u64 \<times> phys_memory" where
  "allocate_structure ctx mem =
     (let phys = next_frame mem
      in (phys, mem\<lparr>ttes := (\<lambda>a. if a - phys < PAGE_SIZE then 0 else ttes mem a),
                    next_frame := phys + PAGE_SIZE\<rparr>))"

definition get_ttl2 :: "mmu_context \<Rightarrow> phys_memory \<Rightarrow> u64 \<Rightarrow> bool \<Rightarrow> u64 option \<times> phys_memory" where
  "get_ttl2 ctx mem virt alloc =
     (let ttl0 = (if virt AND 0x8000000000000000 \<noteq> 0 then ttbr1 ctx else ttbr0 ctx);
          ttl0e = (virt div ARM64_TTL1_RANGE) mod 512
      in if tte mem ttl0 ttl0e AND ARM64_TTE_PRESENT = 0 \<and> \<not> alloc then (None, mem)
         else
           let mem1 =
                 (if tte mem ttl0 ttl0e AND ARM64_TTE_PRESENT = 0 then
                    let (addr, mem') = allocate_structure ctx mem
                    in set_tte mem' ttl0 ttl0e (addr OR ARM64_TTE_PRESENT OR ARM64_TTE_TABLE)
                  else mem);
               ttl1 = tte mem1 ttl0 ttl0e AND ARM64_TTE_ADDR_MASK;
               ttl1e = (virt mod ARM64_TTL1_RANGE) div ARM64_TTL2_RANGE
           in if tte mem1 ttl1 ttl1e AND ARM64_TTE_PRESENT = 0 \<and> \<not> alloc then (None, mem1)
              else
                let mem2 =
                      (if tte mem1 ttl1 ttl1e AND ARM64_TTE_PRESENT = 0 then
                         let (addr, mem') = allocate_structure ctx mem1
                         in set_tte mem' ttl1 ttl1e (addr OR ARM64_TTE_PRESENT OR ARM64_TTE_TABLE)
                       else mem1)
                in (Some (tte mem2 ttl1 ttl1e AND ARM64_TTE_ADDR_MASK), mem2))"

text \<open>A failed \<^verbatim>\<open>assert\<close> stops the loader.\<close>

datatype assertion = Assertion_Failed

definition map_large :: "mmu_context \<Rightarrow> phys_memory \<Rightarrow> u64 \<Rightarrow> u64 \<Rightarrow> assertion + phys_memory" where
  "map_large ctx mem virt phys =
     (if virt mod LARGE_PAGE_SIZE \<noteq> 0 \<or> phys mod LARGE_PAGE_SIZE \<noteq> 0 then Inl Assertion_Failed
      else
        case get_ttl2 ctx mem virt True of
          (None, mem1) \<Rightarrow> Inl Assertion_Failed
        | (Some ttl2, mem1) \<Rightarrow>
            let pde = (virt mod ARM64_TTL2_RANGE) div LARGE_PAGE_SIZE
            in Inr (set_tte mem1 ttl2 pde
                     (phys OR ARM64_TTE_PRESENT OR ARM64_TTE_AF OR ARM64_TTE_SH_INNER_SHAREABLE
                        OR ARM64_TTE_AP_P_RW_U_NA)))"

definition map_small :: "mmu_context \<Rightarrow> phys_memory \<Rightarrow> u64 \<Rightarrow> u64 \<Rightarrow> assertion + phys_memory" where
  "map_small ctx mem virt phys =
     (if virt mod PAGE_SIZE \<noteq> 0 \<or> phys mod PAGE_SIZE \<noteq> 0 then Inl Assertion_Failed
      else
        case get_ttl2 ctx mem virt True of
          (None, mem1) \<Rightarrow> Inl Assertion_Failed
        | (Some ttl2, mem1) \<Rightarrow>
            let pde = (virt mod ARM64_TTL2_RANGE) div ARM64_TTL3_RANGE;
                mem2 =
                  (if tte mem1 ttl2 pde AND ARM64_TTE_PRESENT = 0 then
                     let (addr, mem') = allocate_structure ctx mem1
                     in set_tte mem' ttl2 pde (addr OR ARM64_TTE_PRESENT OR ARM64_TTE_TABLE)
                   else mem1);
                ttl3 = tte mem2 ttl2 pde AND ARM64_TTE_ADDR_MASK;
                pte = (virt mod ARM64_TTL3_RANGE) div PAGE_SIZE
            in Inr (set_tte mem2 ttl3 pte
                     (phys OR ARM64_TTE_PRESENT OR ARM64_TTE_PAGE OR ARM64_TTE_AF
                        OR ARM64_TTE_SH_INNER_SHAREABLE OR ARM64_TTE_AP_P_RW_U_NA)))"

text \<open>
  The three loops of \<^verbatim>\<open>mmu_map\<close>. Each takes one page off \<open>size\<close>, which the assertions at
  the head of \<^verbatim>\<open>mmu_map\<close> make a multiple of the page size; a size that is not stops the
  model, as it never reaches 0.
\<close>

function map_small_to_boundary ::
  "mmu_context \<Rightarrow> phys_memory \<Rightarrow> u64 \<Rightarrow> u64 \<Rightarrow> u64 \<Rightarrow> assertion + (phys_memory \<times> u64 \<times> u64 \<times> u64)" where
  "map_small_to_boundary ctx mem virt phys sz =
     (if virt mod LARGE_PAGE_SIZE \<noteq> 0 \<and> sz \<noteq> 0 then
        if sz < PAGE_SIZE then Inl Assertion_Failed
        else
          case map_small ctx mem virt phys of
            Inl a \<Rightarrow> Inl a
          | Inr mem1 \<Rightarrow>
              map_small_to_boundary ctx mem1 (virt + PAGE_SIZE) (phys + PAGE_SIZE) (sz - PAGE_SIZE)
      else Inr (mem, virt, phys, sz))"
  by pat_completeness auto
termination
  by (relation "measure (\<lambda>(ctx, mem, virt, phys, sz). unat sz)")
     (auto simp: PAGE_SIZE_def unat_sub word_le_nat_alt word_less_nat_alt not_less)

function map_large_pages ::
  "mmu_context \<Rightarrow> phys_memory \<Rightarrow> u64 \<Rightarrow> u64 \<Rightarrow> u64 \<Rightarrow> assertion + (phys_memory \<times> u64 \<times> u64 \<times> u64)" where
  "map_large_pages ctx mem virt phys sz =
     (if sz div LARGE_PAGE_SIZE \<noteq> 0 then
        case map_large ctx mem virt phys of
          Inl a \<Rightarrow> Inl a
        | Inr mem1 \<Rightarrow>
            map_large_pages ctx mem1 (virt + LARGE_PAGE_SIZE) (phys + LARGE_PAGE_SIZE)
              (sz - LARGE_PAGE_SIZE)
      else Inr (mem, virt, phys, sz))"
  by pat_completeness auto
termination
proof (relation "measure (\<lambda>(ctx, mem, virt, phys, sz). unat sz)")
  show "wf (measure (\<lambda>(ctx, mem, virt, phys, sz). unat sz))"
    by simp
next
  fix ctx :: mmu_context and mem mem1 :: phys_memory and virt phys sz :: u64
  assume "sz div LARGE_PAGE_SIZE \<noteq> 0"
  then have "\<not> sz < LARGE_PAGE_SIZE"
    by (auto dest: div_word_less)
  then have "unat (sz - LARGE_PAGE_SIZE) < unat sz"
    by (simp add: LARGE_PAGE_SIZE_def unat_sub word_le_nat_alt word_less_nat_alt not_less)
  then show "((ctx, mem1, virt + LARGE_PAGE_SIZE, phys + LARGE_PAGE_SIZE, sz - LARGE_PAGE_SIZE),
               (ctx, mem, virt, phys, sz)) \<in> measure (\<lambda>(ctx, mem, virt, phys, sz). unat sz)"
    by simp
qed

function map_small_rest ::
  "mmu_context \<Rightarrow> phys_memory \<Rightarrow> u64 \<Rightarrow> u64 \<Rightarrow> u64 \<Rightarrow> assertion + phys_memory" where
  "map_small_rest ctx mem virt phys sz =
     (if sz \<noteq> 0 then
        if sz < PAGE_SIZE then Inl Assertion_Failed
        else
          case map_small ctx mem virt phys of
            Inl a \<Rightarrow> Inl a
          | Inr mem1 \<Rightarrow> map_small_rest ctx mem1 (virt + PAGE_SIZE) (phys + PAGE_SIZE) (sz - PAGE_SIZE)
      else Inr mem)"
  by pat_completeness auto
termination
  by (relation "measure (\<lambda>(ctx, mem, virt, phys, sz). unat sz)")
     (auto simp: PAGE_SIZE_def unat_sub word_le_nat_alt word_less_nat_alt not_less)

declare map_small_to_boundary.simps [simp del]
declare map_large_pages.simps [simp del]
declare map_small_rest.simps [simp del]

text \<open>
  \<^verbatim>\<open>mmu_map\<close>: the result is the return value together with the memory, or the failed
  assertion.
\<close>

definition mmu_map ::
  "mmu_context \<Rightarrow> phys_memory \<Rightarrow> u64 \<Rightarrow> u64 \<Rightarrow> u64 \<Rightarrow> assertion + (bool \<times> phys_memory)" where
  "mmu_map ctx mem virt phys sz =
     (if virt mod PAGE_SIZE \<noteq> 0 \<or> phys mod PAGE_SIZE \<noteq> 0 \<or> sz mod PAGE_SIZE \<noteq> 0
      then Inl Assertion_Failed
      else if \<not> is_canonical_range virt sz then Inr (False, mem)
      else
        case (if virt mod LARGE_PAGE_SIZE = phys mod LARGE_PAGE_SIZE then
                case map_small_to_boundary ctx mem virt phys sz of
                  Inl a \<Rightarrow> Inl a
                | Inr (mem1, virt1, phys1, sz1) \<Rightarrow> map_large_pages ctx mem1 virt1 phys1 sz1
              else Inr (mem, virt, phys, sz)) of
          Inl a \<Rightarrow> Inl a
        | Inr (mem2, virt2, phys2, sz2) \<Rightarrow>
            (case map_small_rest ctx mem2 virt2 phys2 sz2 of
               Inl a \<Rightarrow> Inl a
             | Inr mem3 \<Rightarrow> Inr (True, mem3)))"

text \<open>
  A canonical range in the words of the specification, with the position \<open>k\<close> of the sign
  bit left open: both ends of the range extend their bit \<open>k\<close> through all higher bits, and
  they agree in it (they lie in the same half).
\<close>

definition extends_from_bit :: "nat \<Rightarrow> u64 \<Rightarrow> bool" where
  "extends_from_bit k a \<longleftrightarrow> signed_take_bit k a = a"

definition spec_canonical_range :: "nat \<Rightarrow> u64 \<Rightarrow> u64 \<Rightarrow> bool" where
  "spec_canonical_range k virt sz =
     (let last_addr = virt + sz - 1
      in extends_from_bit k virt \<and> extends_from_bit k last_addr \<and> bit virt k = bit last_addr k)"

text \<open>A context with two empty top-level tables, for examples.\<close>

definition example_context :: mmu_context where
  "example_context = \<lparr> ttbr0 = 0x1000, ttbr1 = 0x2000, phys_type = 0 \<rparr>"

definition example_memory :: phys_memory where
  "example_memory = \<lparr> ttes = (\<lambda>a. 0), contents = (\<lambda>a. 0), next_frame = 0x3000 \<rparr>"

section \<open>Releasing whole blocks into the buddy allocator\<close>

text \<open>
  \<^verbatim>\<open>buddy_free_page\<close> with its loop entered at order \<open>k\<close> instead of 0; the function of the
  source is \<open>free_at_order\<close> at order 0.
\<close>

definition free_at_order ::
  "info_window \<times> mezzano_boot_information \<Rightarrow> u64 \<Rightarrow> bin_array \<Rightarrow> nat \<Rightarrow> nat \<Rightarrow> u64
     \<Rightarrow> info_window \<times> mezzano_boot_information" where
  "free_at_order st nilv sel m k l =
     (let (st1, k1, l1) = combine_loop st nilv sel m k l in push_free st1 nilv sel k1 l1)"

text \<open>
  The pages of the block of order \<open>k\<close> at \<open>base\<close>, in ascending order, and their release one
  by one, the way \<^verbatim>\<open>mezzano_loader_load\<close> walks a free range
  (\<^verbatim>\<open>for(i = 0; i < range->size; i += PAGE_SIZE) buddy_free_page(..., range->start + i)\<close>).
\<close>

definition block_pages :: "u64 \<Rightarrow> nat \<Rightarrow> u64 list" where
  "block_pages base k = map (\<lambda>i. base + of_nat i * PAGE_SIZE) [0..<2 ^ k]"

definition free_pages ::
  "info_window \<times> mezzano_boot_information \<Rightarrow> u64 \<Rightarrow> u64 list
     \<Rightarrow> info_window \<times> mezzano_boot_information" where
  "free_pages st nilv ps = foldl (\<lambda>s l. buddy_free_page s nilv l) st ps"

definition release_block ::
  "info_window \<times> mezzano_boot_information \<Rightarrow> u64 \<Rightarrow> u64 \<Rightarrow> nat
     \<Rightarrow> info_window \<times> mezzano_boot_information" where
  "release_block st nilv base k = free_pages st nilv (block_pages base k)"

text \<open>The address \<open>q\<close> lies in the aligned block of order \<open>k\<close> that holds \<open>base\<close>.\<close>

definition in_block :: "u64 \<Rightarrow> nat \<Rightarrow> u64 \<Rightarrow> bool" where
  "in_block base k q \<longleftrightarrow> drop_bit (12 + k) q = drop_bit (12 + k) base"

text \<open>Two states with the same boot information and the same page infos outside a block.\<close>

definition agree_outside ::
  "u64 \<Rightarrow> nat \<Rightarrow> info_window \<times> mezzano_boot_information
     \<Rightarrow> info_window \<times> mezzano_boot_information \<Rightarrow> bool" where
  "agree_outside base k s t \<longleftrightarrow>
     snd s = snd t \<and> (\<forall>q. in_block base k q \<or> fst s (q div PAGE_SIZE) = fst t (q div PAGE_SIZE))"

text \<open>The fields of a page info that the allocator reads.\<close>

definition info_core :: "info_window \<Rightarrow> u64 \<Rightarrow> u64 \<times> u8 \<times> u64 \<times> u64" where
  "info_core mmu page =
     (page_info_type mmu page, page_info_bin mmu page, page_info_next mmu page,
      page_info_prev mmu page)"

text \<open>
  The bins of the array \<open>sel\<close> below index \<open>k\<close> are empty, and an empty allocator: the two
  arrays have their 20 and 27 bins, all empty, and no page info has the type free.
\<close>

definition bins_empty_below :: "bin_array \<Rightarrow> nat \<Rightarrow> u64 \<Rightarrow> mezzano_boot_information \<Rightarrow> bool" where
  "bins_empty_below sel k nilv boot_info \<longleftrightarrow>
     (\<forall>j<k. bin_first_page sel j boot_info = nilv \<and> bin_count sel j boot_info = 0)"

definition empty_allocator :: "info_window \<times> mezzano_boot_information \<Rightarrow> u64 \<Rightarrow> bool" where
  "empty_allocator st nilv \<longleftrightarrow>
     length (buddy_bin_32 (snd st)) = mezzano_n_buddy_bins_32_bit
     \<and> length (buddy_bin_64 (snd st)) = mezzano_n_buddy_bins_64_bit
     \<and> bins_empty_below Buddy_Bin_32 mezzano_n_buddy_bins_32_bit nilv (snd st)
     \<and> bins_empty_below Buddy_Bin_64 mezzano_n_buddy_bins_64_bit nilv (snd st)
     \<and> (\<forall>q. page_info_type (fst st) q \<noteq> page_type_free)"

text \<open>
  The state \<open>s'\<close> holds exactly one entry more than the empty allocator \<open>st\<close>: the bins are
  those of \<open>st\<close> but for bin \<open>k\<close> of the array \<open>sel\<close>, whose list is the single block at
  \<open>c\<close> (its count is \<open>fixnum(1)\<close>, its head is \<open>c\<close>, and \<open>c\<close> is marked free in bin \<open>k\<close>
  with no successor and no predecessor).
\<close>

definition single_entry ::
  "bin_array \<Rightarrow> nat \<Rightarrow> u64 \<Rightarrow> u64 \<Rightarrow> info_window \<times> mezzano_boot_information
     \<Rightarrow> info_window \<times> mezzano_boot_information \<Rightarrow> bool" where
  "single_entry sel k c nilv st s' \<longleftrightarrow>
     snd s' = set_bin sel k \<lparr>first_page = fixnum (c div PAGE_SIZE), count = fixnum 1\<rparr> (snd st)
     \<and> info_core (fst s') c = (page_type_free, of_nat k, nilv, nilv)"

text \<open>
  An allocator as \<^verbatim>\<open>mezzano_loader_load\<close> has it before the first release: one memory-map
  entry for the first 4 GiB, the bins initialised, and all page infos zero.
\<close>

definition example_allocator :: "u64 \<Rightarrow> info_window \<times> mezzano_boot_information" where
  "example_allocator nilv =
     (\<lambda>frame. \<lparr>flags = 0, extra = 0, next = 0, prev = 0\<rparr>,
      init_buddy_bins
        (zero_boot_info\<lparr>n_memory_map_entries := 1,
                        memory_map := (memory_map zero_boot_info)[0 := \<lparr>start = 0, end' = 0x100000000\<rparr>]\<rparr>)
        nilv)"


subsection \<open>The bins as lists of pages\<close>

text \<open>
  A bin names a page by \<open>fixnum (page / PAGE_SIZE)\<close>, and gets the page back from such a link
  as \<open>unfixnum link * PAGE_SIZE\<close>. A page can be an entry of a list when it is page-aligned
  and its link is not \<open>nil\<close>.
\<close>

definition link_of :: "u64 \<Rightarrow> u64" where
  "link_of x = fixnum (x div PAGE_SIZE)"

definition entry_page :: "u64 \<Rightarrow> u64 \<Rightarrow> bool" where
  "entry_page nilv x \<longleftrightarrow> take_bit 12 x = 0 \<and> link_of x \<noteq> nilv"

text \<open>
  The doubly linked list of the pages \<open>xs\<close>: it starts with the link \<open>h\<close>, the first page has
  the predecessor \<open>pv\<close>, every page has its neighbours as \<open>next\<close> and \<open>prev\<close>, and the last
  page has the successor \<open>nil\<close>. Bin \<open>j\<close> holds \<open>xs\<close> when its \<open>first_page\<close> starts such a list
  with predecessor \<open>nil\<close> and its \<open>count\<close> is the \<open>fixnum\<close> of the length.
\<close>

fun dll :: "info_window \<Rightarrow> u64 \<Rightarrow> u64 \<Rightarrow> u64 \<Rightarrow> u64 list \<Rightarrow> bool" where
  "dll mmu nilv pv h [] \<longleftrightarrow> h = nilv"
| "dll mmu nilv pv h (x # xs) \<longleftrightarrow>
     h = link_of x \<and> page_info_prev mmu x = pv
     \<and> dll mmu nilv (link_of x) (page_info_next mmu x) xs"

definition bin_holds ::
  "info_window \<times> mezzano_boot_information \<Rightarrow> u64 \<Rightarrow> bin_array \<Rightarrow> nat \<Rightarrow> u64 list \<Rightarrow> bool" where
  "bin_holds u nilv sel j xs \<longleftrightarrow>
     dll (fst u) nilv nilv (bin_first_page sel j (snd u)) xs
     \<and> bin_count sel j (snd u) = fixnum (of_nat (length xs))"

text \<open>
  The allocator in the words of the specification: the entries of every bin of one array,
  and for every page the type and the bin of its page info. \<open>spec_bins\<close> is the array and
  the last bin index for page \<open>l\<close>, \<open>spec_combine\<close> is the loop of steps 2 and 3,
  \<open>spec_free_page\<close> the whole release of page \<open>l\<close> with last bin index \<open>m\<close>: the bin loses
  the buddy that is combined, and the final bin gains the final page at its head. The loop
  starts at order 0, so that \<open>m \<le> k\<close> is \<open>k = m\<close>. \<open>spec_free_pages\<close> releases the pages of
  a list one after the other, and \<open>empty_buddy_state\<close> has no entry and no page marked free.
\<close>

record buddy_state =
  lists :: "nat \<Rightarrow> u64 list"
  tags :: "u64 \<Rightarrow> u64 \<times> nat"

definition spec_bins :: "u64 \<Rightarrow> bin_array \<times> nat" where
  "spec_bins l = (if l < 0x100000000 then (Buddy_Bin_32, 19) else (Buddy_Bin_64, 26))"

function spec_combine ::
  "buddy_state \<Rightarrow> (u64 \<Rightarrow> bool) \<Rightarrow> nat \<Rightarrow> nat \<Rightarrow> u64 \<Rightarrow> buddy_state \<times> nat \<times> u64" where
  "spec_combine S in_map m k l =
     (let p = l XOR 2 ^ (k + 12) in
      if m \<le> k \<or> \<not> in_map p \<or> fst (tags S p) \<noteq> page_type_free \<or> snd (tags S p) \<noteq> k
      then (S, k, l)
      else spec_combine (S\<lparr>lists := (lists S)(k := remove1 p (lists S k))\<rparr>) in_map m (k + 1)
             (min l p))"
  by pat_completeness auto
termination
  by (relation "measure (\<lambda>(S, in_map, m, k, l). m - k)") auto

declare spec_combine.simps [simp del]

definition spec_free_page :: "buddy_state \<Rightarrow> (u64 \<Rightarrow> bool) \<Rightarrow> nat \<Rightarrow> u64 \<Rightarrow> buddy_state" where
  "spec_free_page S in_map m l =
     (let (S1, k, l1) = spec_combine S in_map m 0 l
      in S1\<lparr>lists := (lists S1)(k := l1 # lists S1 k),
             tags := (tags S1)(l1 := (page_type_free, k))\<rparr>)"

definition spec_free_pages :: "buddy_state \<Rightarrow> (u64 \<Rightarrow> bool) \<Rightarrow> nat \<Rightarrow> u64 list \<Rightarrow> buddy_state" where
  "spec_free_pages S in_map m ps = foldl (\<lambda>T l. spec_free_page T in_map m l) S ps"

definition empty_buddy_state :: buddy_state where
  "empty_buddy_state = \<lparr>lists = \<lambda>j. [], tags = \<lambda>q. (page_type_other, 0)\<rparr>"

text \<open>
  The state \<open>u\<close> of the loader represents \<open>S\<close>: the array has its bins, every bin up to \<open>m\<close>
  holds the list that \<open>S\<close> gives it, and the page infos of the pages of the memory map carry
  the tags of \<open>S\<close>.
\<close>

definition represents ::
  "info_window \<times> mezzano_boot_information \<Rightarrow> u64 \<Rightarrow> bin_array \<Rightarrow> nat \<Rightarrow> buddy_state \<Rightarrow> bool" where
  "represents u nilv sel m S \<longleftrightarrow>
     m < length (buddies_of sel (snd u))
     \<and> (\<forall>j\<le>m. bin_holds u nilv sel j (lists S j))
     \<and> (\<forall>q. take_bit 12 q = 0 \<and> page_exists (snd u) q \<longrightarrow>
            tags S q = (page_info_type (fst u) q, unat (page_info_bin (fst u) q)))"

text \<open>
  A well-formed buddy state: no page is an entry twice, in one bin or in two, and every
  entry is a page of the memory map that a link can name.
\<close>

definition well_formed :: "buddy_state \<Rightarrow> (u64 \<Rightarrow> bool) \<Rightarrow> u64 \<Rightarrow> nat \<Rightarrow> bool" where
  "well_formed S in_map nilv m \<longleftrightarrow>
     (\<forall>j\<le>m. distinct (lists S j))
     \<and> (\<forall>i\<le>m. \<forall>j\<le>m. i \<noteq> j \<longrightarrow> set (lists S i) \<inter> set (lists S j) = {})
     \<and> (\<forall>j\<le>m. \<forall>x\<in>set (lists S j). entry_page nilv x \<and> in_map x)"

text \<open>
  The first page of the aligned block of order \<open>k\<close> that holds \<open>l\<close>, and what makes \<open>l\<close> a page
  that can be released: it is a page of the memory map that a link can name, it is not an
  entry, and the buddy of its block of order \<open>k\<close>, when it is marked free in bin \<open>k\<close>, is an
  entry of bin \<open>k\<close>.
\<close>

definition block_head :: "nat \<Rightarrow> u64 \<Rightarrow> u64" where
  "block_head k l = push_bit (12 + k) (drop_bit (12 + k) l)"

definition releasable :: "buddy_state \<Rightarrow> (u64 \<Rightarrow> bool) \<Rightarrow> u64 \<Rightarrow> nat \<Rightarrow> u64 \<Rightarrow> bool" where
  "releasable S in_map nilv m l \<longleftrightarrow>
     entry_page nilv l \<and> in_map l \<and> (\<forall>j\<le>m. l \<notin> set (lists S j))
     \<and> (\<forall>k<m. in_map (buddy k (block_head k l))
              \<and> tags S (buddy k (block_head k l)) = (page_type_free, k)
            \<longrightarrow> buddy k (block_head k l) \<in> set (lists S k))"
section \<open>Memory operations through the arm64 paging context (\<^verbatim>\<open>mmu_mem_op\<close>)\<close>

datatype mem_op = MMU_MEM_SET | MMU_MEM_COPY_TO | MMU_MEM_COPY_FROM

text \<open>
  \<^verbatim>\<open>memset\<close> and \<^verbatim>\<open>memcpy\<close> on the bytes of physical memory: the \<open>n\<close> bytes from \<open>dst\<close> on are
  those with \<open>a - dst < n\<close>. \<^verbatim>\<open>memcpy\<close> reads the bytes as they were before the call (C leaves
  overlapping regions undefined).
\<close>

definition memset_bytes :: "phys_memory \<Rightarrow> u64 \<Rightarrow> u8 \<Rightarrow> u64 \<Rightarrow> phys_memory" where
  "memset_bytes mem dst b n =
     mem\<lparr>contents := (\<lambda>a. if a - dst < n then b else contents mem a)\<rparr>"

definition memcpy_bytes :: "phys_memory \<Rightarrow> u64 \<Rightarrow> u64 \<Rightarrow> u64 \<Rightarrow> phys_memory" where
  "memcpy_bytes mem dst src n =
     mem\<lparr>contents := (\<lambda>a. if a - dst < n then contents mem (src + (a - dst)) else contents mem a)\<rparr>"

text \<open>\<^verbatim>\<open>do_mem_op\<close>: the memory after the operation and the updated \<^verbatim>\<open>*_value\<close>.\<close>

definition do_mem_op :: "phys_memory \<Rightarrow> u64 \<Rightarrow> u64 \<Rightarrow> mem_op \<Rightarrow> u64 \<Rightarrow> phys_memory \<times> u64" where
  "do_mem_op mem page page_size op v =
     (case op of
        MMU_MEM_SET \<Rightarrow> (memset_bytes mem page (ucast v) page_size, v)
      | MMU_MEM_COPY_TO \<Rightarrow> (memcpy_bytes mem page v page_size, v + page_size)
      | MMU_MEM_COPY_FROM \<Rightarrow> (memcpy_bytes mem v page page_size, v + page_size))"

text \<open>
  A table pointer in \<^verbatim>\<open>mmu_mem_op\<close> is the address of the table, \<^verbatim>\<open>NULL\<close> being 0:
  \<^verbatim>\<open>phys_to_virt\<close> leaves the address as it is, so the pointer made from a table entry whose
  address bits are all 0 is \<^verbatim>\<open>NULL\<close> as well.
\<close>

definition ptr_of :: "u64 option \<Rightarrow> u64" where
  "ptr_of r = (case r of None \<Rightarrow> 0 | Some a \<Rightarrow> a)"

text \<open>
  The body of the \<^verbatim>\<open>while (size)\<close> loop up to \<^verbatim>\<open>page_size = min(page_size, size)\<close>: from the
  table pointers kept from the last round it either returns (\<open>Inl\<close>) or yields the
  pointers for the next round together with \<open>page\<close> and \<open>page_size\<close> (\<open>Inr\<close>). The test
  \<^verbatim>\<open>if (!ttl2) return false\<close> stands after the refresh in the source; where \<open>ttl2\<close> is not
  refreshed it is not \<^verbatim>\<open>NULL\<close>.
\<close>

definition mem_op_lookup ::
  "mmu_context \<Rightarrow> phys_memory \<Rightarrow> u64 \<Rightarrow> u64 \<Rightarrow> u64
     \<Rightarrow> (bool + u64 \<times> u64 \<times> u64 \<times> u64) \<times> phys_memory" where
  "mem_op_lookup ctx mem ttl2 ttl3 addr =
     (let (ttl2a, mem1) =
            (if ttl2 = 0 \<or> addr mod ARM64_TTL2_RANGE = 0
             then case get_ttl2 ctx mem addr False of (r, m) \<Rightarrow> (ptr_of r, m)
             else (ttl2, mem))
      in if ttl2a = 0 then (Inl False, mem1)
         else
           let pde = (addr mod ARM64_TTL2_RANGE) div ARM64_TTL3_RANGE;
               refresh = (ttl3 = 0 \<or> addr mod ARM64_TTL3_RANGE = 0)
           in if refresh \<and> tte mem1 ttl2a pde AND ARM64_TTE_PRESENT = 0 then (Inl False, mem1)
              else
                let (ttl3a, page, page_size) =
                      (if refresh then
                         if tte mem1 ttl2a pde AND ARM64_TTE_TABLE \<noteq> 0
                         then (tte mem1 ttl2a pde AND ARM64_TTE_ADDR_MASK, 0, 0)
                         else (0, (tte mem1 ttl2a pde AND ARM64_TTE_ADDR_MASK)
                                    + addr mod LARGE_PAGE_SIZE,
                               LARGE_PAGE_SIZE - addr mod LARGE_PAGE_SIZE)
                       else (ttl3, 0, 0))
                in if ttl3a \<noteq> 0 then
                     let pte = (addr mod ARM64_TTL3_RANGE) div PAGE_SIZE
                     in if tte mem1 ttl3a pte AND ARM64_TTE_PRESENT = 0 then (Inl False, mem1)
                        else (Inr (ttl2a, ttl3a,
                                   (tte mem1 ttl3a pte AND ARM64_TTE_ADDR_MASK) + addr mod PAGE_SIZE,
                                   PAGE_SIZE - addr mod PAGE_SIZE), mem1)
                   else (Inr (ttl2a, ttl3a, page, page_size), mem1))"

text \<open>
  The loop of \<^verbatim>\<open>mmu_mem_op\<close>. The result is the return value, or \<open>None\<close> where the loop never
  returns, together with the memory. A round with \<open>page_size = 0\<close> changes nothing but sets
  \<open>ttl3\<close> to \<^verbatim>\<open>NULL\<close>, so that the next round is the same round again: the loop runs forever.
  This happens when a table entry has the table bit and the address 0. Every other round
  takes at least one byte off \<open>size\<close>.
\<close>

function mem_op_loop ::
  "mmu_context \<Rightarrow> phys_memory \<Rightarrow> u64 \<Rightarrow> u64 \<Rightarrow> u64 \<Rightarrow> u64 \<Rightarrow> mem_op \<Rightarrow> u64
     \<Rightarrow> bool option \<times> phys_memory" where
  "mem_op_loop ctx mem ttl2 ttl3 addr sz op v =
     (if sz = 0 then (Some True, mem)
      else
        case mem_op_lookup ctx mem ttl2 ttl3 addr of
          (Inl r, mem1) \<Rightarrow> (Some r, mem1)
        | (Inr (ttl2a, ttl3a, page, page_size), mem1) \<Rightarrow>
            if min page_size sz = 0 then (None, mem1)
            else
              mem_op_loop ctx (fst (do_mem_op mem1 page (min page_size sz) op v)) ttl2a ttl3a
                (addr + min page_size sz) (sz - min page_size sz) op
                (snd (do_mem_op mem1 page (min page_size sz) op v)))"
  by pat_completeness auto
termination
proof (relation "measure (\<lambda>(ctx, mem, ttl2, ttl3, addr, sz, op, v). unat sz)")
  show "wf (measure (\<lambda>(ctx, mem, ttl2, ttl3, addr, sz, op, v). unat sz))"
    by simp
next
  fix ctx :: mmu_context and mem mem1 :: phys_memory and ttl2 ttl3 addr sz v page page_size :: u64
    and op :: mem_op and x y z ttl2a ttl3a w
  assume "min page_size sz \<noteq> 0"
  then have "0 < unat (min page_size sz)"
    by (simp add: unat_gt_0)
  moreover have "min page_size sz \<le> sz"
    by simp
  ultimately have "unat (sz - min page_size sz) < unat sz"
    by (simp add: unat_sub word_le_nat_alt)
  then show "((ctx, fst (do_mem_op mem1 page (min page_size sz) op v), ttl2a, ttl3a,
                addr + min page_size sz, sz - min page_size sz, op,
                snd (do_mem_op mem1 page (min page_size sz) op v)),
               (ctx, mem, ttl2, ttl3, addr, sz, op, v))
      \<in> measure (\<lambda>(ctx, mem, ttl2, ttl3, addr, sz, op, v). unat sz)"
    by simp
qed

declare mem_op_loop.simps [simp del]

definition mmu_mem_op ::
  "mmu_context \<Rightarrow> phys_memory \<Rightarrow> u64 \<Rightarrow> u64 \<Rightarrow> mem_op \<Rightarrow> u64 \<Rightarrow> bool option \<times> phys_memory" where
  "mmu_mem_op ctx mem addr sz op v =
     (if \<not> is_canonical_range addr sz then (Some False, mem)
      else mem_op_loop ctx mem 0 0 addr sz op v)"

definition mmu_memset ::
  "mmu_context \<Rightarrow> phys_memory \<Rightarrow> u64 \<Rightarrow> u8 \<Rightarrow> u64 \<Rightarrow> bool option \<times> phys_memory" where
  "mmu_memset ctx mem addr b sz = mmu_mem_op ctx mem addr sz MMU_MEM_SET (ucast b)"

definition mmu_memcpy_to ::
  "mmu_context \<Rightarrow> phys_memory \<Rightarrow> u64 \<Rightarrow> u64 \<Rightarrow> u64 \<Rightarrow> bool option \<times> phys_memory" where
  "mmu_memcpy_to ctx mem dest src sz = mmu_mem_op ctx mem dest sz MMU_MEM_COPY_TO src"

definition mmu_memcpy_from ::
  "mmu_context \<Rightarrow> phys_memory \<Rightarrow> u64 \<Rightarrow> u64 \<Rightarrow> u64 \<Rightarrow> bool option \<times> phys_memory" where
  "mmu_memcpy_from ctx mem dest src sz = mmu_mem_op ctx mem src sz MMU_MEM_COPY_FROM dest"

text \<open>
  What the tables of the context give for a single virtual address: the round of the loop
  entered without table pointers. \<open>translate\<close> is the physical address of the byte, and
  \<open>unmapped\<close> says that the round returns \<^verbatim>\<open>false\<close>.
\<close>

definition translate :: "mmu_context \<Rightarrow> phys_memory \<Rightarrow> u64 \<Rightarrow> u64 option" where
  "translate ctx mem a =
     (case fst (mem_op_lookup ctx mem 0 0 a) of
        Inl r \<Rightarrow> None
      | Inr (ttl2, ttl3, page, page_size) \<Rightarrow> if page_size = 0 then None else Some page)"

definition unmapped :: "mmu_context \<Rightarrow> phys_memory \<Rightarrow> u64 \<Rightarrow> bool" where
  "unmapped ctx mem a \<longleftrightarrow> fst (mem_op_lookup ctx mem 0 0 a) = Inl False"

text \<open>
  The table pointers kept from the last round fit the address \<open>a\<close>: each is \<^verbatim>\<open>NULL\<close>, or is
  refreshed at \<open>a\<close>, or is the pointer that a fresh walk finds for \<open>a\<close>.
\<close>

definition ttl2_at :: "mmu_context \<Rightarrow> phys_memory \<Rightarrow> u64 \<Rightarrow> u64" where
  "ttl2_at ctx mem a = ptr_of (fst (get_ttl2 ctx mem a False))"

definition coherent :: "mmu_context \<Rightarrow> phys_memory \<Rightarrow> u64 \<Rightarrow> u64 \<Rightarrow> u64 \<Rightarrow> bool" where
  "coherent ctx mem ttl2 ttl3 a \<longleftrightarrow>
     (ttl2 = 0 \<or> a mod ARM64_TTL2_RANGE = 0 \<or> ttl2 = ttl2_at ctx mem a)
     \<and> (ttl3 = 0 \<or> a mod ARM64_TTL3_RANGE = 0
        \<or> (tte mem (ttl2_at ctx mem a) ((a mod ARM64_TTL2_RANGE) div ARM64_TTL3_RANGE)
               AND ARM64_TTE_PRESENT \<noteq> 0
           \<and> tte mem (ttl2_at ctx mem a) ((a mod ARM64_TTL2_RANGE) div ARM64_TTL3_RANGE)
               AND ARM64_TTE_TABLE \<noteq> 0
           \<and> ttl3 = tte mem (ttl2_at ctx mem a) ((a mod ARM64_TTL2_RANGE) div ARM64_TTL3_RANGE)
               AND ARM64_TTE_ADDR_MASK))"

text \<open>
  A context with one small page: the tables that \<^verbatim>\<open>mmu_map\<close> builds in \<open>example_memory\<close> for
  the page at virtual \<open>0x400000\<close> and physical \<open>0x10000\<close>.
\<close>

definition one_page_memory :: phys_memory where
  "one_page_memory =
     \<lparr> ttes = (\<lambda>a. if a = 0x1000 then 0x3003 else if a = 0x3000 then 0x4003
                    else if a = 0x4010 then 0x5003 else if a = 0x5000 then 0x10703 else 0),
       contents = (\<lambda>a. 0), next_frame = 0x6000 \<rparr>"

section \<open>Fixnum round trip\<close>

text \<open>
  C6. For every integer \<open>v\<close> with \<open>-2^62 \<le> v < 2^62\<close>, decoding the encoding of \<open>v\<close> gives
  \<open>v\<close> back: \<open>unfixnum (fixnum v) = v\<close>, read as a signed 64-bit value.
\<close>

theorem fixnum_roundtrip:
  fixes v :: int
  assumes "- (2 ^ 62) \<le> v" and "v < 2 ^ 62"
  shows "sint (unfixnum (fixnum (word_of_int v))) = v"
proof -
  have "fixnum (word_of_int v) = (word_of_int (2 * v) :: u64)"
    by (simp add: fixnum_def push_bit_eq_mult)
  moreover have "sint (word_of_int (2 * v) :: u64) = 2 * v"
    using assms by (simp only: sint_sbintrunc') (simp add: signed_take_bit_int_eq_self)
  ultimately show ?thesis
    by (simp add: unfixnum_def sint_signed_drop_bit_eq drop_bit_eq_div)
qed

theorem fixnum_roundtrip_witness:
  "- (2 ^ 62) \<le> (-5 :: int) \<and> (-5 :: int) < 2 ^ 62 \<and> sint (unfixnum (fixnum (word_of_int (-5)))) = (-5 :: int)"
  using fixnum_roundtrip [of "-5"] by simp

section \<open>Memory map: insertion\<close>

lemma unat_succ_below:
  fixes i n :: u64
  assumes "i < n"
  shows "unat (i + 1) = unat i + 1"
proof -
  have "unat i < unat n" using assms by (simp add: word_less_nat_alt)
  moreover have "unat n < 2 ^ 64" using unsigned_less [of n] by simp
  ultimately have "unat i + unat (1 :: u64) < 2 ^ LENGTH(64)" by simp
  then show ?thesis by (simp add: unat_add_lem [THEN iffD1])
qed

lemma word_succ_le:
  fixes i n :: u64
  assumes "i < n"
  shows "i + 1 \<le> n"
  using assms unat_succ_below [OF assms] by (simp add: word_le_nat_alt word_less_nat_alt)

lemma map_inv_insert_new_region:
  assumes "map_inv b" and "i \<le> n_memory_map_entries b"
  shows "map_inv (insert_new_region b s e i)"
proof (cases "n_memory_map_entries b = of_nat mezzano_max_memory_map_size")
  case True
  then show ?thesis using assms by (simp add: insert_new_region_def)
next
  case False
  let ?n = "n_memory_map_entries b"
  have n32: "unat ?n \<le> 32" and len: "length (memory_map b) = 32"
    using assms(1) by (simp_all add: map_inv_def mezzano_max_memory_map_size_def)
  have "unat ?n \<noteq> 32"
  proof
    assume "unat ?n = 32"
    moreover have "?n = of_nat (unat ?n)" by simp
    ultimately have "?n = 32" by simp
    with False show False by (simp add: mezzano_max_memory_map_size_def)
  qed
  with n32 have lt: "unat ?n < 32" by simp
  then have "?n < 32" by (simp add: word_less_nat_alt)
  then have n1: "unat (?n + 1) = unat ?n + 1" by (rule unat_succ_below)
  have ile: "unat i \<le> unat ?n" using assms(2) by (simp add: word_le_nat_alt)
  have "i < 32" using assms(2) \<open>?n < 32\<close> by simp
  then have i1: "unat (i + 1) = unat i + 1" by (rule unat_succ_below)
  have sub: "unat (?n - i) = unat ?n - unat i"
    using assms(2) by (simp add: unat_sub)
  have "length (memmove_entries (memory_map b) (unat (i + 1)) (unat i) (unat (?n - i))) = 32"
    using len lt ile by (simp add: memmove_entries_def i1 sub)
  then show ?thesis
    using False n1 lt
    by (simp add: insert_new_region_def map_inv_def crunch_memory_map_def Let_def
        mezzano_max_memory_map_size_def)
qed

lemma map_inv_merge:
  "map_inv b \<Longrightarrow> map_inv (crunch_memory_map (b\<lparr>memory_map := (memory_map b)[k := x]\<rparr>))"
  by (simp add: map_inv_def crunch_memory_map_def)

lemma map_inv_insert_scan:
  "map_inv b \<Longrightarrow> i \<le> n_memory_map_entries b \<Longrightarrow> map_inv (insert_scan b s e i)"
proof (induction b s e i rule: insert_scan.induct)
  case (1 b s e i)
  show ?case
    using 1
    by (subst insert_scan.simps)
       (auto simp: Let_def map_inv_insert_new_region word_succ_le map_inv_merge)
qed

lemma map_inv_zero: "map_inv zero_boot_info"
  by (simp add: map_inv_def zero_boot_info_def mezzano_max_memory_map_size_def)

lemma map_inv_insert_all: "map_inv b \<Longrightarrow> map_inv (insert_all b rs)"
  by (induction b rs rule: insert_all.induct)
     (simp_all add: mezzano_insert_into_memory_map_def map_inv_insert_scan)

text \<open>
  C7. Starting from an empty memory map, inserting \<open>(10, 20)\<close> and then \<open>(20, 30)\<close> yields
  exactly one entry \<open>(10, 30)\<close>; inserting \<open>(10, 20)\<close> and then \<open>(15, 25)\<close> yields exactly one
  entry \<open>(10, 25)\<close>.
\<close>

theorem insert_merges_touching_and_overlapping:
  "live_entries (insert_all zero_boot_info [(10, 20), (20, 30)]) = [\<lparr>start = 10, end' = 30\<rparr>]
   \<and> live_entries (insert_all zero_boot_info [(10, 20), (15, 25)]) = [\<lparr>start = 10, end' = 25\<rparr>]"
  by code_simp

text \<open>
  C1. The claim is that after any sequence of insertions into an empty map the live entries
  are strictly separated. The merge pass is empty in the source, so three adjacent regions
  reported out of order, \<open>(0x1000, 0x2000)\<close>, \<open>(0x3000, 0x4000)\<close>, \<open>(0x2000, 0x3000)\<close>, leave
  two entries that touch: the third call widens the first entry up to the start of the
  second and nothing joins them.
\<close>

theorem insert_leaves_touching_entries:
  "live_entries (insert_all zero_boot_info [(0x1000, 0x2000), (0x3000, 0x4000), (0x2000, 0x3000)])
     = [\<lparr>start = 0x1000, end' = 0x3000\<rparr>, \<lparr>start = 0x3000, end' = 0x4000\<rparr>]
   \<and> \<not> strictly_separated
         (live_entries (insert_all zero_boot_info
            [(0x1000, 0x2000), (0x3000, 0x4000), (0x2000, 0x3000)]))"
  by code_simp

lemma insert_all_snoc:
  "insert_all b (rs @ [(s, e)]) = mezzano_insert_into_memory_map (insert_all b rs) s e"
  by (induction b rs rule: insert_all.induct) simp_all

subsection \<open>Inserting regions that are apart\<close>

lemma live_entries_insert_new_region:
  assumes inv: "map_inv b" and le: "i \<le> n_memory_map_entries b"
    and room: "unat (n_memory_map_entries b) < mezzano_max_memory_map_size"
  shows "live_entries (insert_new_region b s e i)
           = take (unat i) (live_entries b) @ \<lparr>start = s, end' = e\<rparr> # drop (unat i) (live_entries b)"
    and "n_memory_map_entries (insert_new_region b s e i) = n_memory_map_entries b + 1"
    and "unat (n_memory_map_entries (insert_new_region b s e i)) = unat (n_memory_map_entries b) + 1"
proof -
  let ?n = "n_memory_map_entries b"
  let ?a = "memory_map b"
  have len: "length ?a = 32" and lt: "unat ?n < 32"
    using inv room by (simp_all add: map_inv_def mezzano_max_memory_map_size_def)
  from lt have "?n < 32" by (simp add: word_less_nat_alt)
  then have n1: "unat (?n + 1) = unat ?n + 1" by (rule unat_succ_below)
  have ne: "?n \<noteq> of_nat mezzano_max_memory_map_size"
    using lt by (auto simp: mezzano_max_memory_map_size_def)
  have ile: "unat i \<le> unat ?n" using le by (simp add: word_le_nat_alt)
  have "i < 32" using le \<open>?n < 32\<close> by simp
  then have i1: "unat (i + 1) = unat i + 1" by (rule unat_succ_below)
  have sub: "unat (?n - i) = unat ?n - unat i"
    using le by (simp add: unat_sub)
  show "n_memory_map_entries (insert_new_region b s e i) = ?n + 1"
    using ne by (simp add: insert_new_region_def crunch_memory_map_def Let_def)
  then show "unat (n_memory_map_entries (insert_new_region b s e i)) = unat ?n + 1"
    by (simp add: n1)
  have "take (unat ?n + 1)
          ((memmove_entries ?a (unat i + 1) (unat i) (unat ?n - unat i))
             [unat i := \<lparr>start = s, end' = e\<rparr>])
        = take (unat i) (take (unat ?n) ?a) @ \<lparr>start = s, end' = e\<rparr>
            # drop (unat i) (take (unat ?n) ?a)"
    using len lt ile
    by (simp add: memmove_entries_def list_update_append take_Suc_conv_app_nth min_def
        drop_take upd_conv_take_nth_drop Suc_diff_le) arith
  then show "live_entries (insert_new_region b s e i)
           = take (unat i) (live_entries b) @ \<lparr>start = s, end' = e\<rparr> # drop (unat i) (live_entries b)"
    using ne by (simp add: insert_new_region_def crunch_memory_map_def Let_def live_entries_def
        n1 i1 sub)
qed


lemma insert_position:
  assumes sep: "strictly_separated es" and valid: "\<forall>m\<in>set es. start m \<le> end' m"
    and k: "k \<le> length es" and before: "\<forall>j<k. end' (es ! j) < s"
    and after: "k < length es \<longrightarrow> e < start (es ! k)"
  shows "strictly_separated (take k es @ \<lparr>start = s, end' = e\<rparr> # drop k es)"
proof -
  from sep have "sorted_wrt (\<lambda>a b. end' a < start b) (take k es @ drop k es)"
    by (simp add: strictly_separated_def)
  then have parts: "sorted_wrt (\<lambda>a b. end' a < start b) (take k es)"
    "sorted_wrt (\<lambda>a b. end' a < start b) (drop k es)"
    "\<forall>x\<in>set (take k es). \<forall>y\<in>set (drop k es). end' x < start y"
    unfolding sorted_wrt_append by simp_all
  have low: "end' x < s" if "x \<in> set (take k es)" for x
  proof -
    from that obtain j where "j < length (take k es)" and "x = take k es ! j"
      by (auto simp: in_set_conv_nth)
    with before k show ?thesis by simp
  qed
  have high: "e < start y" if "y \<in> set (drop k es)" for y
  proof (cases "k < length es")
    case False
    with that show ?thesis by simp
  next
    case True
    then have d: "drop k es = es ! k # drop (Suc k) es"
      by (simp add: Cons_nth_drop_Suc)
    from True after have a: "e < start (es ! k)" by simp
    show ?thesis
    proof (cases "y = es ! k")
      case True
      with a show ?thesis by simp
    next
      case False
      with that d have "y \<in> set (drop (Suc k) es)" by simp
      with parts(2) d have "end' (es ! k) < start y" by simp
      moreover from True valid have "start (es ! k) \<le> end' (es ! k)" by simp
      ultimately show ?thesis using a by simp
    qed
  qed
  show ?thesis
    unfolding strictly_separated_def sorted_wrt_append
    using parts low high by auto
qed


lemma insert_scan_separated:
  assumes "map_inv b" and "unat (n_memory_map_entries b) < mezzano_max_memory_map_size"
    and "strictly_separated (live_entries b)"
    and "\<forall>m\<in>set (live_entries b). start m \<le> end' m"
    and "\<forall>m\<in>set (live_entries b). e < start m \<or> end' m < s"
    and "i \<le> n_memory_map_entries b"
    and "\<forall>j<unat i. end' (live_entries b ! j) < s"
    and "s \<le> e"
  shows "\<exists>k\<le>length (live_entries b).
           live_entries (insert_scan b s e i)
             = take k (live_entries b) @ \<lparr>start = s, end' = e\<rparr> # drop k (live_entries b)
           \<and> strictly_separated (live_entries (insert_scan b s e i))
           \<and> unat (n_memory_map_entries (insert_scan b s e i))
               = unat (n_memory_map_entries b) + 1"
  using assms
proof (induction b s e i rule: insert_scan.induct)
  case (1 b s e i)
  let ?es = "live_entries b"
  let ?n = "n_memory_map_entries b"
  have len: "length ?es = unat ?n"
    using "1.prems"(1) by (simp add: live_entries_def map_inv_def)
  have ile: "unat i \<le> length ?es"
    using "1.prems"(6) by (simp add: len word_le_nat_alt)
  note new = live_entries_insert_new_region [OF "1.prems"(1) "1.prems"(6) "1.prems"(2), of s e]
  have place: "\<exists>k\<le>length ?es.
           live_entries (insert_new_region b s e i)
             = take k ?es @ \<lparr>start = s, end' = e\<rparr> # drop k ?es
           \<and> strictly_separated (live_entries (insert_new_region b s e i))
           \<and> unat (n_memory_map_entries (insert_new_region b s e i)) = unat ?n + 1"
    if "unat i < length ?es \<longrightarrow> e < start (?es ! unat i)"
    using insert_position [OF "1.prems"(3) "1.prems"(4) ile "1.prems"(7) that] ile new
    by auto
  show ?case
  proof (cases "i < ?n")
    case False
    with "1.prems"(6) have "unat i = length ?es"
      by (simp add: len word_less_nat_alt word_le_nat_alt)
    then have "unat i < length ?es \<longrightarrow> e < start (?es ! unat i)"
      by simp
    moreover from False have "insert_scan b s e i = insert_new_region b s e i"
      by (subst insert_scan.simps) simp
    ultimately show ?thesis
      using place by simp
  next
    case lt: True
    then have ilt: "unat i < length ?es"
      by (simp add: len word_less_nat_alt)
    let ?m = "memory_map b ! unat i"
    have m: "?m = ?es ! unat i"
      using ilt by (simp add: live_entries_def)
    show ?thesis
    proof (cases "e < start ?m")
      case True
      then have "unat i < length ?es \<longrightarrow> e < start (?es ! unat i)"
        by (simp add: m)
      moreover from lt True have "insert_scan b s e i = insert_new_region b s e i"
        by (subst insert_scan.simps) (simp add: Let_def)
      ultimately show ?thesis
        using place by simp
    next
      case False
      from ilt have "?es ! unat i \<in> set ?es"
        by simp
      with "1.prems"(5) False have below: "end' ?m < s"
        by (auto simp: m)
      with False "1.prems"(8)
      have no: "\<not> in_range (start ?m) (end' ?m) s" "\<not> in_range (start ?m) (end' ?m) e"
        by (auto simp: in_range_def not_less)
      have i1: "unat (i + 1) = unat i + 1"
        using lt by (rule unat_succ_below)
      have "\<forall>j<unat (i + 1). end' (?es ! j) < s"
        using "1.prems"(7) below by (auto simp: i1 m less_Suc_eq)
      moreover have "i + 1 \<le> ?n"
        using lt by (rule word_succ_le)
      ultimately have "\<exists>k\<le>length ?es.
           live_entries (insert_scan b s e (i + 1))
             = take k ?es @ \<lparr>start = s, end' = e\<rparr> # drop k ?es
           \<and> strictly_separated (live_entries (insert_scan b s e (i + 1)))
           \<and> unat (n_memory_map_entries (insert_scan b s e (i + 1))) = unat ?n + 1"
        using "1.IH" [OF lt refl _ _ "1.prems"(1-5) _ _ "1.prems"(8)] False no
        by (simp add: not_less)
      moreover from lt False no have "insert_scan b s e i = insert_scan b s e (i + 1)"
        by (subst insert_scan.simps) (simp add: Let_def not_less)
      ultimately show ?thesis
        by simp
    qed
  qed
qed


lemma separated_regions_snoc:
  "separated_regions (rs @ [r]) \<longleftrightarrow>
     separated_regions rs \<and> fst r \<le> snd r \<and> (\<forall>r'\<in>set rs. apart r' r)"
  by (induction rs) (auto simp: list_all_iff)

lemma separated_regions_valid:
  "separated_regions rs \<Longrightarrow> r \<in> set rs \<Longrightarrow> fst r \<le> snd r"
  by (induction rs) auto

lemma set_insert_at: "set (take k es @ x # drop k es) = insert x (set es)"
proof -
  have "set (take k es) \<union> set (drop k es) = set (take k es @ drop k es)"
    by (simp only: set_append)
  then show ?thesis by auto
qed

lemma insert_all_separated:
  assumes "separated_regions rs" and "length rs \<le> mezzano_max_memory_map_size"
  shows "map_inv (insert_all zero_boot_info rs)
       \<and> unat (n_memory_map_entries (insert_all zero_boot_info rs)) = length rs
       \<and> strictly_separated (live_entries (insert_all zero_boot_info rs))
       \<and> set (live_entries (insert_all zero_boot_info rs)) = region_entry ` set rs"
  using assms
proof (induction rs rule: rev_induct)
  case Nil
  have "live_entries zero_boot_info = []"
    by (simp add: live_entries_def zero_boot_info_def)
  moreover have "n_memory_map_entries zero_boot_info = 0"
    by (simp add: zero_boot_info_def)
  ultimately show ?case
    by (simp add: map_inv_zero strictly_separated_def)
next
  case (snoc r rs)
  obtain s e where r: "r = (s, e)" by (cases r)
  let ?b = "insert_all zero_boot_info rs"
  from snoc.prems have sep: "separated_regions rs" and se: "s \<le> e"
    and ap: "\<forall>r'\<in>set rs. apart r' (s, e)" and len: "length rs < mezzano_max_memory_map_size"
    by (simp_all add: separated_regions_snoc r)
  from snoc.IH [OF sep] len have inv: "map_inv ?b" and n: "unat (n_memory_map_entries ?b) = length rs"
    and sorted: "strictly_separated (live_entries ?b)"
    and live: "set (live_entries ?b) = region_entry ` set rs"
    by simp_all
  have valid: "\<forall>m\<in>set (live_entries ?b). start m \<le> end' m"
    using separated_regions_valid [OF sep] by (auto simp: live region_entry_def)
  have away: "\<forall>m\<in>set (live_entries ?b). e < start m \<or> end' m < s"
    using ap by (auto simp: live region_entry_def apart_def)
  from insert_scan_separated [OF inv _ sorted valid away _ _ se, of 0] len n
  obtain k where "k \<le> length (live_entries ?b)"
    and l: "live_entries (insert_scan ?b s e 0)
          = take k (live_entries ?b) @ \<lparr>start = s, end' = e\<rparr> # drop k (live_entries ?b)"
    and s': "strictly_separated (live_entries (insert_scan ?b s e 0))"
    and n': "unat (n_memory_map_entries (insert_scan ?b s e 0)) = length rs + 1"
    by auto
  have "map_inv (insert_scan ?b s e 0)"
    using inv by (rule map_inv_insert_scan) simp
  moreover have "set (live_entries (insert_scan ?b s e 0)) = region_entry ` set (rs @ [r])"
    unfolding l set_insert_at by (simp add: live r region_entry_def)
  ultimately show ?case
    using s' n' by (simp add: insert_all_snoc r mezzano_insert_into_memory_map_def)
qed


lemma count_not_fixnum:
  assumes "0 < n" and "n \<le> mezzano_max_memory_map_size"
  shows "(of_nat n :: u64) \<noteq> fixnum (of_nat n)"
proof
  assume e: "(of_nat n :: u64) = fixnum (of_nat n)"
  have "fixnum (of_nat n) = (of_nat (2 * n) :: u64)"
    by (simp add: fixnum_def push_bit_eq_mult mult.commute)
  with e have "unat (of_nat n :: u64) = unat (of_nat (2 * n) :: u64)"
    by (simp only:)
  moreover have "n < 2 ^ 64" "2 * n < 2 ^ 64"
    using assms(2) by (simp_all add: mezzano_max_memory_map_size_def)
  moreover have "unat (of_nat n :: u64) = n mod 2 ^ 64"
    "unat (of_nat (2 * n) :: u64) = (2 * n) mod 2 ^ 64"
    unfolding unat_of_nat by simp_all
  ultimately have "n = 2 * n"
    by (simp only: mod_less)
  with assms(1) show False by simp
qed

text \<open>
  C5, as stated: the field \<open>n_memory_map_entries\<close> would hold \<open>fixnum count\<close>. One region
  inserted into the empty map ends in slot 0 and the field is 1, while \<open>fixnum\<close> of the
  number of regions, 1, is 2.
\<close>

theorem n_memory_map_entries_not_fixnum:
  "memory_map (insert_all zero_boot_info [(0x1000, 0x2000)]) ! 0 = region_entry (0x1000, 0x2000)
   \<and> n_memory_map_entries (insert_all zero_boot_info [(0x1000, 0x2000)]) = 1
   \<and> fixnum (of_nat (length [(0x1000 :: u64, 0x2000 :: u64)])) = (2 :: u64)"
  by code_simp

text \<open>
  C5, amended. The field holds the plain number of entries (the header calls it
  \<^verbatim>\<open>unsigned-byte 64\<close>): when at most 32 regions that are apart from one another are
  inserted into the empty map, in any order, the field is the number of regions, unshifted;
  the first that many slots hold exactly these regions, in address order; and the field
  differs from the \<open>fixnum\<close> of the number as soon as there is a region.
\<close>

theorem n_memory_map_entries_counts_regions:
  assumes "separated_regions rs" and "length rs \<le> mezzano_max_memory_map_size"
  shows "n_memory_map_entries (insert_all zero_boot_info rs) = of_nat (length rs)
       \<and> set (take (length rs) (memory_map (insert_all zero_boot_info rs))) = region_entry ` set rs
       \<and> strictly_separated (take (length rs) (memory_map (insert_all zero_boot_info rs)))
       \<and> (0 < length rs \<longrightarrow>
            n_memory_map_entries (insert_all zero_boot_info rs) \<noteq> fixnum (of_nat (length rs)))"
proof -
  let ?b = "insert_all zero_boot_info rs"
  note a = insert_all_separated [OF assms]
  from a have n: "unat (n_memory_map_entries ?b) = length rs" by simp
  have "n_memory_map_entries ?b = of_nat (unat (n_memory_map_entries ?b))" by simp
  then have c: "n_memory_map_entries ?b = of_nat (length rs)" by (simp only: n)
  have "take (length rs) (memory_map ?b) = live_entries ?b"
    by (simp add: live_entries_def n)
  with a c count_not_fixnum [OF _ assms(2)] show ?thesis
    by simp
qed

theorem n_memory_map_entries_counts_regions_witness:
  "separated_regions [(0x3000, 0x4000), (0x1000, 0x2000)]
   \<and> n_memory_map_entries (insert_all zero_boot_info [(0x3000, 0x4000), (0x1000, 0x2000)]) = 2
   \<and> set (take 2 (memory_map (insert_all zero_boot_info [(0x3000, 0x4000), (0x1000, 0x2000)])))
       = {region_entry (0x1000, 0x2000), region_entry (0x3000, 0x4000)}
   \<and> n_memory_map_entries (insert_all zero_boot_info [(0x3000, 0x4000), (0x1000, 0x2000)])
       \<noteq> fixnum 2"
proof -
  have s: "separated_regions [(0x3000, 0x4000), (0x1000 :: u64, 0x2000 :: u64)]"
    by (simp add: apart_def)
  have l: "length [(0x3000, 0x4000), (0x1000 :: u64, 0x2000 :: u64)] \<le> mezzano_max_memory_map_size"
    by (simp add: mezzano_max_memory_map_size_def)
  have two: "length [(0x3000, 0x4000), (0x1000 :: u64, 0x2000 :: u64)] = 2"
    by simp
  have img: "region_entry ` set [(0x3000, 0x4000), (0x1000, 0x2000)]
      = {region_entry (0x1000, 0x2000), region_entry (0x3000, 0x4000)}"
    by auto
  note t = n_memory_map_entries_counts_regions [OF s l, unfolded two img]
  from t have "n_memory_map_entries (insert_all zero_boot_info [(0x3000, 0x4000), (0x1000, 0x2000)])
      = 2"
    by simp
  moreover from t
  have "set (take 2 (memory_map (insert_all zero_boot_info [(0x3000, 0x4000), (0x1000, 0x2000)])))
      = {region_entry (0x1000, 0x2000), region_entry (0x3000, 0x4000)}"
    by (rule conjunct1 [OF conjunct2])
  moreover have "fixnum 2 \<noteq> (2 :: u64)"
    by (simp add: fixnum_def)
  ultimately show ?thesis
    using s by simp
qed

section \<open>Protocol gate\<close>

text \<open>
  C3, as stated, ends with: a header with minor 27 that is rejected with major 0 is accepted
  with major 1. The command rejects it: any major other than 0 fails the check of the major
  version, which comes first.
\<close>

theorem major_one_minor_above_rejected:
  "config_cmd_mezzano [Value_String ''hd0''] (env_with_header (header_with_version 1 27))
     = Inl Unsupported_Protocol_Major"
  by (simp add: config_cmd_mezzano_def env_with_header_def header_with_version_def
      check_header_def mezzano_protocol_major_def)

text \<open>
  C3, amended. For a header with valid magic that the command gets to check (arguments
  accepted, image located, memory test passed or skipped, header read): the command is
  rejected iff the major version is not 0 or the minor version is not 26. So with major 0
  it is rejected iff the minor differs from 26, in particular for minor 27; and with any
  other major, 1 included, it is rejected whatever the minor.
\<close>

theorem protocol_gate:
  assumes "locate_image env path"
    and "parse_options rest (zero_loader, False) = Inr (ld, skip)"
    and "skip \<or> \<not> foldl (+) 0 (memory_snapshot env) < 500 * 1024 * 1024"
    and "read_header env = Some h"
    and "magic h = mezzano_magic"
  shows "(isl (config_cmd_mezzano (Value_String path # rest) env)
            \<longleftrightarrow> protocol_major h \<noteq> 0 \<or> protocol_minor h \<noteq> 26)
       \<and> (protocol_major h = 0 \<and> protocol_minor h \<noteq> 26
            \<longrightarrow> config_cmd_mezzano (Value_String path # rest) env = Inl Unsupported_Protocol_Minor)
       \<and> (protocol_major h \<noteq> 0
            \<longrightarrow> config_cmd_mezzano (Value_String path # rest) env = Inl Unsupported_Protocol_Major)
       \<and> (protocol_major h = 0 \<and> protocol_minor h = 26
            \<longrightarrow> config_cmd_mezzano (Value_String path # rest) env = Inr (ld\<lparr>header := h\<rparr>))"
  using assms
  by (auto simp: config_cmd_mezzano_def check_header_def mezzano_protocol_major_def
      mezzano_protocol_minor_def)

theorem protocol_gate_witness:
  "locate_image (env_with_header (header_with_version 0 27)) ''hd0''
   \<and> parse_options [Value_String ''verbose''] (zero_loader, False)
         = Inr (zero_loader\<lparr>verbose := True\<rparr>, False)
   \<and> \<not> foldl (+) 0 (memory_snapshot (env_with_header (header_with_version 0 27)))
         < 500 * 1024 * 1024
   \<and> read_header (env_with_header (header_with_version 0 27)) = Some (header_with_version 0 27)
   \<and> magic (header_with_version 0 27) = mezzano_magic
   \<and> config_cmd_mezzano [Value_String ''hd0'', Value_String ''verbose'']
         (env_with_header (header_with_version 0 27)) = Inl Unsupported_Protocol_Minor"
proof -
  let ?h = "header_with_version 0 27"
  let ?env = "env_with_header ?h"
  have 1: "locate_image ?env ''hd0''"
    by (simp add: env_with_header_def)
  have 2: "parse_options [Value_String ''verbose''] (zero_loader, False)
             = Inr (zero_loader\<lparr>verbose := True\<rparr>, False)"
    by simp
  have 3: "False \<or> \<not> foldl (+) 0 (memory_snapshot ?env) < 500 * 1024 * 1024"
    by (simp add: env_with_header_def)
  have 4: "read_header ?env = Some ?h"
    by (simp add: env_with_header_def)
  have 5: "magic ?h = mezzano_magic"
    by (simp add: header_with_version_def)
  have 6: "protocol_major ?h = 0 \<and> protocol_minor ?h \<noteq> 26"
    by (simp add: header_with_version_def)
  from protocol_gate [OF 1 2 3 4 5] 6
  have "config_cmd_mezzano [Value_String ''hd0'', Value_String ''verbose''] ?env
          = Inl Unsupported_Protocol_Minor"
    by blast
  with 1 2 4 5 show ?thesis
    by (simp add: env_with_header_def)
qed

section \<open>Page-info fields\<close>

lemma bit_fixnum:
  "bit (fixnum x) n \<longleftrightarrow> 1 \<le> n \<and> n < 64 \<and> bit x (n - 1)"
  unfolding fixnum_def bit_push_bit_iff
  by (auto dest: bit_imp_le_length simp: possible_bit_word)

lemma bit_unfixnum:
  "bit (unfixnum x) n \<longleftrightarrow> bit x (if 63 \<le> n \<and> n < 64 then 63 else 1 + n)"
  unfolding unfixnum_def bit_signed_drop_bit_iff by simp

lemma unfixnum_fixnum_low:
  "unfixnum (fixnum x) AND 0xFF = x AND 0xFF"
proof (rule bit_word_eqI)
  fix n assume "n < LENGTH(64)"
  have m: "(0xFF :: u64) = mask 8" by (simp add: mask_eq_exp_minus_1)
  show "bit (unfixnum (fixnum x) AND 0xFF) n = bit (x AND 0xFF) n"
    unfolding m
    by (auto simp: bit_and_iff bit_mask_iff bit_unfixnum bit_fixnum)
qed

lemma type_after_set:
  assumes "v AND 0xFF = v"
  shows "page_info_type (set_page_info_type mmu p v) p = v"
proof -
  have "(x AND NOT 0xFF OR v) AND 0xFF = v" for x :: u64
  proof (rule bit_word_eqI)
    fix n assume "n < LENGTH(64)"
    have m: "(0xFF :: u64) = mask 8" by (simp add: mask_eq_exp_minus_1)
    have "bit v n = bit (v AND mask 8) n" using assms by (simp add: m)
    then show "bit ((x AND NOT 0xFF OR v) AND 0xFF) n = bit v n"
      unfolding m by (auto simp: bit_and_iff bit_or_iff bit_not_iff bit_mask_iff)
  qed
  then show ?thesis
    by (simp add: page_info_type_def set_page_info_type_def page_info_flags_def
        set_page_info_flags_def unfixnum_fixnum_low Let_def)
qed

section \<open>Page-info type of a loaded page\<close>

lemmas load_page_eval =
  load_page_def memory_alloc_def mmu_map_page_def Let_def freestanding_state_def empty_chunk_def
  zero_loader_def BLOCK_MAP_PRESENT_def BLOCK_MAP_TRANSIENT_def BLOCK_MAP_WIRED_def
  BLOCK_MAP_ZERO_FILL_def BLOCK_MAP_WRITABLE_def BLOCK_MAP_TRACK_DIRTY_def BLOCK_MAP_ID_SHIFT_def
  PAGE_CHUNK_SIZE_def PAGE_SIZE_def

text \<open>
  C4, as stated: with the freestanding flag set, every PRESENT, non-TRANSIENT entry that is
  loaded gets the page-info type active. A freestanding loader hands the entry \<open>0x2A15\<close>
  (PRESENT, ZERO_FILL, WIRED, block 42) to \<^verbatim>\<open>load_page\<close>, which loads it and gives its frame
  the type wired.
\<close>

theorem freestanding_wired_entry_stays_wired:
  "freestanding (loader freestanding_state)
   \<and> handed_to_load_page (loader freestanding_state) 0x2A15
   \<and> 0x2A15 AND BLOCK_MAP_PRESENT \<noteq> 0
   \<and> 0x2A15 AND BLOCK_MAP_TRANSIENT = 0
   \<and> \<not> isl (load_page freestanding_state (\<lambda>id. None) 0x2A15 0xFFFF810000000000 empty_chunk)
   \<and> page_info_type
         (infos (fst (projr (load_page freestanding_state (\<lambda>id. None) 0x2A15 0xFFFF810000000000
                               empty_chunk))))
         (frame_taken freestanding_state empty_chunk) = page_type_wired
   \<and> page_type_wired \<noteq> page_type_active"
  by (simp add: load_page_eval handed_to_load_page_def frame_taken_def
      page_info_type_def set_page_info_type_def set_page_info_extra_def page_info_flags_def
      set_page_info_flags_def fixnum_def unfixnum_def page_type_wired_def page_type_active_def)

text \<open>
  C4, amended. For every PRESENT, non-TRANSIENT level-1 entry that \<^verbatim>\<open>load_page\<close> loads, the
  page-info type of the frame it takes is wired when the entry has the WIRED flag and
  active when it has not, whether or not the freestanding flag is set; the freestanding
  flag only decides that entries without WIRED are handed to \<^verbatim>\<open>load_page\<close> at all.
\<close>

theorem load_page_type_follows_wired_flag:
  assumes "info AND BLOCK_MAP_PRESENT \<noteq> 0" and "info AND BLOCK_MAP_TRANSIENT = 0"
    and "load_page st disk info virtual chunk = Inr (st', chunk')"
  shows "page_info_type (infos st') (frame_taken st chunk)
           = (if info AND BLOCK_MAP_WIRED \<noteq> 0 then page_type_wired else page_type_active)
       \<and> (handed_to_load_page (loader st) info
            \<longleftrightarrow> freestanding (loader st) \<or> info AND BLOCK_MAP_WIRED \<noteq> 0)"
  using assms
  by (auto simp: load_page_def frame_taken_def memory_alloc_def mmu_map_page_def Let_def
       type_after_set page_type_wired_def page_type_active_def handed_to_load_page_def
      split: if_splits option.splits sum.splits)

theorem load_page_type_follows_wired_flag_witness:
  "0x2A05 AND BLOCK_MAP_PRESENT \<noteq> 0
   \<and> 0x2A05 AND BLOCK_MAP_TRANSIENT = 0
   \<and> freestanding (loader freestanding_state)
   \<and> handed_to_load_page (loader freestanding_state) 0x2A05
   \<and> isl (load_page freestanding_state (\<lambda>id. None) 0x2A05 0xFFFF810000000000 empty_chunk) = False
   \<and> page_info_type
         (infos (fst (projr (load_page freestanding_state (\<lambda>id. None) 0x2A05 0xFFFF810000000000
                               empty_chunk))))
         (frame_taken freestanding_state empty_chunk) = page_type_active"
proof -
  let ?r = "load_page freestanding_state (\<lambda>id. None) 0x2A05 0xFFFF810000000000 empty_chunk"
  have p: "0x2A05 AND BLOCK_MAP_PRESENT \<noteq> 0"
    by (simp add: BLOCK_MAP_PRESENT_def)
  have t: "0x2A05 AND BLOCK_MAP_TRANSIENT = 0"
    by (simp add: BLOCK_MAP_TRANSIENT_def)
  have w: "0x2A05 AND BLOCK_MAP_WIRED = 0"
    by (simp add: BLOCK_MAP_WIRED_def)
  have r: "\<not> isl ?r"
    by (simp add: load_page_eval)
  then have e: "?r = Inr (fst (projr ?r), snd (projr ?r))"
    by (cases ?r) simp_all
  have f: "freestanding (loader freestanding_state)"
    by (simp add: freestanding_state_def)
  from load_page_type_follows_wired_flag [OF p t e] w f
  have "page_info_type (infos (fst (projr ?r))) (frame_taken freestanding_state empty_chunk)
          = page_type_active"
    and "handed_to_load_page (loader freestanding_state) 0x2A05"
    by simp_all
  with p t r f show ?thesis
    by simp
qed

section \<open>Block-map resolution\<close>

lemma take_cached_Some:
  "take_cached cache block_id = Some (e, rest) \<Longrightarrow>
     block e = block_id \<and> e \<in> set cache \<and> set rest \<subseteq> set cache"
  by (induction cache arbitrary: e rest) (auto split: if_splits option.splits)

lemma read_cached_block_ok:
  assumes "cache_ok disk cache" and "disk block_id = Some d"
  shows "\<exists>cache'. read_cached_block cache disk block_id = Inr (d, cache') \<and> cache_ok disk cache'"
proof (cases "take_cached cache block_id")
  case None
  with assms show ?thesis
    by (simp add: read_cached_block_def cache_ok_def)
next
  case (Some hit)
  obtain e rest where hit: "hit = (e, rest)" by (cases hit)
  from take_cached_Some [OF Some [unfolded hit]]
  have e: "block e = block_id" "e \<in> set cache" "set rest \<subseteq> set cache" by simp_all
  from assms(1) e have "disk (block e) = Some (data e)" and "cache_ok disk (e # rest)"
    by (auto simp: cache_ok_def list_all_iff)
  with assms(2) e(1) Some hit show ?thesis
    by (simp add: read_cached_block_def)
qed

lemma read_cached_block_fail:
  assumes "cache_ok disk cache" and "disk block_id = None"
  shows "read_cached_block cache disk block_id = Inl (Could_Not_Read_Cached_Block block_id)"
proof (cases "take_cached cache block_id")
  case None
  with assms show ?thesis by (simp add: read_cached_block_def)
next
  case (Some hit)
  obtain e rest where hit: "hit = (e, rest)" by (cases hit)
  from take_cached_Some [OF Some [unfolded hit]] assms show ?thesis
    by (auto simp: cache_ok_def list_all_iff)
qed

text \<open>One level of the walk: the cached read against the plain read of the image.\<close>

lemma read_cached_block_level:
  assumes "cache_ok disk cache"
  shows "(\<exists>b cache'. read_cached_block cache disk block_id = Inr (b, cache')
            \<and> cache_ok disk cache' \<and> disk block_id = Some b)
         \<or> (read_cached_block cache disk block_id = Inl (Could_Not_Read_Cached_Block block_id)
            \<and> disk block_id = None)"
  using read_cached_block_ok [OF assms] read_cached_block_fail [OF assms]
  by (cases "disk block_id") auto

lemma read_info_for_page_refines:
  assumes c: "cache_ok disk cache"
  shows "map_sum id fst (read_info_for_page cache disk root v) = spec_read_info disk root v"
proof -
  note defs = read_info_for_page_def spec_read_info_def spec_level_entry_def Let_def
    bml_index_def [symmetric] BLOCK_MAP_ID_SHIFT_def
  from read_cached_block_level [OF c, of root] show ?thesis
  proof (elim disjE exE conjE)
    fix b4 c1
    assume r4: "read_cached_block cache disk root = Inr (b4, c1)" and c1: "cache_ok disk c1"
      and d4: "disk root = Some b4"
    show ?thesis
    proof (cases "b4 ! bml_index 39 v AND BLOCK_MAP_PRESENT = 0")
      case True
      with r4 d4 show ?thesis by (simp add: defs)
    next
      case p4: False
      from read_cached_block_level [OF c1, of "drop_bit 8 (b4 ! bml_index 39 v)"] show ?thesis
      proof (elim disjE exE conjE)
        fix b3 c2
        assume r3: "read_cached_block c1 disk (drop_bit 8 (b4 ! bml_index 39 v)) = Inr (b3, c2)"
          and c2: "cache_ok disk c2" and d3: "disk (drop_bit 8 (b4 ! bml_index 39 v)) = Some b3"
        show ?thesis
        proof (cases "b3 ! bml_index 30 v AND BLOCK_MAP_PRESENT = 0")
          case True
          with r4 d4 p4 r3 d3 show ?thesis by (simp add: defs)
        next
          case p3: False
          from read_cached_block_level [OF c2, of "drop_bit 8 (b3 ! bml_index 30 v)"] show ?thesis
          proof (elim disjE exE conjE)
            fix b2 c3
            assume r2: "read_cached_block c2 disk (drop_bit 8 (b3 ! bml_index 30 v)) = Inr (b2, c3)"
              and c3: "cache_ok disk c3" and d2: "disk (drop_bit 8 (b3 ! bml_index 30 v)) = Some b2"
            show ?thesis
            proof (cases "b2 ! bml_index 21 v AND BLOCK_MAP_PRESENT = 0")
              case True
              with r4 d4 p4 r3 d3 p3 r2 d2 show ?thesis by (simp add: defs)
            next
              case p2: False
              from read_cached_block_level [OF c3, of "drop_bit 8 (b2 ! bml_index 21 v)"]
                r4 d4 p4 r3 d3 p3 r2 d2 p2
              show ?thesis by (auto simp: defs)
            qed
          next
            assume "read_cached_block c2 disk (drop_bit 8 (b3 ! bml_index 30 v))
                      = Inl (Could_Not_Read_Cached_Block (drop_bit 8 (b3 ! bml_index 30 v)))"
              and "disk (drop_bit 8 (b3 ! bml_index 30 v)) = None"
            with r4 d4 p4 r3 d3 p3 show ?thesis by (simp add: defs)
          qed
        qed
      next
        assume "read_cached_block c1 disk (drop_bit 8 (b4 ! bml_index 39 v))
                  = Inl (Could_Not_Read_Cached_Block (drop_bit 8 (b4 ! bml_index 39 v)))"
          and "disk (drop_bit 8 (b4 ! bml_index 39 v)) = None"
        with r4 d4 p4 show ?thesis by (simp add: defs)
      qed
    qed
  next
    assume "read_cached_block cache disk root = Inl (Could_Not_Read_Cached_Block root)"
      and "disk root = None"
    then show ?thesis by (simp add: defs)
  qed
qed

lemma bml_index_less: "bml_index shift v < 512"
proof -
  have "drop_bit shift v AND 0x1FF \<le> (0x1FF :: u64)"
    by (rule word_and_le1)
  then have "unat (drop_bit shift v AND 0x1FF) \<le> unat (0x1FF :: u64)"
    by (simp add: word_le_nat_alt)
  then show ?thesis by (simp add: bml_index_def)
qed

lemma lone_present_other:
  "lone_present blk i \<Longrightarrow> j < 512 \<Longrightarrow> j \<noteq> i \<Longrightarrow> blk ! j AND BLOCK_MAP_PRESENT = 0"
  by (auto simp: lone_present_def list_all_iff)

lemma lone_present_here:
  "lone_present blk i \<Longrightarrow> blk ! i AND BLOCK_MAP_PRESENT \<noteq> 0"
  by (simp add: lone_present_def)

lemma spec_read_info_single_page:
  assumes m: "single_page_map disk root v0 e0"
  shows "\<exists>r. spec_read_info disk root v = Inr r
           \<and> (same_page v v0 \<longrightarrow> r = e0)
           \<and> (\<not> same_page v v0 \<longrightarrow> r AND BLOCK_MAP_PRESENT = 0)
           \<and> (\<not> same_level1_block v v0 \<longrightarrow> r = 0)"
proof -
  from m obtain b4 b3 b2 b1 where
    d4: "disk root = Some b4" and l4: "lone_present b4 (bml_index 39 v0)" and
    d3: "disk (drop_bit 8 (b4 ! bml_index 39 v0)) = Some b3" and
    l3: "lone_present b3 (bml_index 30 v0)" and
    d2: "disk (drop_bit 8 (b3 ! bml_index 30 v0)) = Some b2" and
    l2: "lone_present b2 (bml_index 21 v0)" and
    d1: "disk (drop_bit 8 (b2 ! bml_index 21 v0)) = Some b1" and
    l1: "lone_present b1 (bml_index 12 v0)" and e0: "b1 ! bml_index 12 v0 = e0"
    by (auto simp: single_page_map_def BLOCK_MAP_ID_SHIFT_def split: option.splits)
  note defs = spec_read_info_def spec_level_entry_def same_page_def same_level1_block_def
  note here = lone_present_here [OF l4] lone_present_here [OF l3] lone_present_here [OF l2]
  show ?thesis
  proof (cases "bml_index 39 v = bml_index 39 v0")
    case False
    with lone_present_other [OF l4 bml_index_less, of 39 v] d4 show ?thesis
      by (simp add: defs)
  next
    case i4: True
    show ?thesis
    proof (cases "bml_index 30 v = bml_index 30 v0")
      case False
      with lone_present_other [OF l3 bml_index_less, of 30 v] d4 d3 i4 here show ?thesis
        by (simp add: defs)
    next
      case i3: True
      show ?thesis
      proof (cases "bml_index 21 v = bml_index 21 v0")
        case False
        with lone_present_other [OF l2 bml_index_less, of 21 v] d4 d3 d2 i4 i3 here show ?thesis
          by (simp add: defs)
      next
        case i2: True
        show ?thesis
        proof (cases "bml_index 12 v = bml_index 12 v0")
          case True
          with d4 d3 d2 d1 e0 i4 i3 i2 here show ?thesis
            by (simp add: defs)
        next
          case False
          with lone_present_other [OF l1 bml_index_less, of 12 v] d4 d3 d2 d1 i4 i3 i2 here
          show ?thesis
            by (simp add: defs)
        qed
      qed
    qed
  qed
qed


lemma take_bit_eq_iff_bits:
  fixes x y :: u64
  shows "take_bit k x = take_bit k y \<longleftrightarrow> (\<forall>n<k. bit x n = bit y n)"
proof
  assume e: "take_bit k x = take_bit k y"
  show "\<forall>n<k. bit x n = bit y n"
  proof (intro allI impI)
    fix n assume "n < k"
    with e have "bit (take_bit k x) n = bit (take_bit k y) n" by simp
    with \<open>n < k\<close> show "bit x n = bit y n" by (simp add: bit_take_bit_iff)
  qed
next
  assume "\<forall>n<k. bit x n = bit y n"
  then show "take_bit k x = take_bit k y"
    by (intro bit_eqI) (auto simp: bit_take_bit_iff)
qed

lemma bml_index_eq_iff:
  "bml_index s v = bml_index s w \<longleftrightarrow> (\<forall>n<9. bit v (s + n) = bit w (s + n))"
proof -
  have m: "(0x1FF :: u64) = mask 9" by (simp add: mask_eq_exp_minus_1)
  have "bml_index s v = bml_index s w \<longleftrightarrow> take_bit 9 (drop_bit s v) = take_bit 9 (drop_bit s w)"
    by (simp add: bml_index_def m take_bit_eq_mask [symmetric] word_unat_eq_iff [symmetric])
  also have "\<dots> \<longleftrightarrow> (\<forall>n<9. bit v (s + n) = bit w (s + n))"
    by (simp add: take_bit_eq_iff_bits bit_drop_bit_eq add.commute)
  finally show ?thesis .
qed

lemma same_page_iff:
  "same_page v w \<longleftrightarrow> take_bit 36 (drop_bit 12 v) = take_bit 36 (drop_bit 12 w)"
proof -
  have "same_page v w \<longleftrightarrow> (\<forall>n<36. bit v (12 + n) = bit w (12 + n))"
  proof
    assume sp: "same_page v w"
    show "\<forall>n<36. bit v (12 + n) = bit w (12 + n)"
    proof (intro allI impI)
      fix n :: nat assume "n < 36"
      then consider "n < 9" | "9 \<le> n" "n < 18" | "18 \<le> n" "n < 27" | "27 \<le> n" "n < 36"
        by linarith
      then show "bit v (12 + n) = bit w (12 + n)"
      proof cases
        case 1
        with sp show ?thesis by (simp add: same_page_def bml_index_eq_iff)
      next
        case 2
        then have "n - 9 < 9" by simp
        with sp have "bit v (21 + (n - 9)) = bit w (21 + (n - 9))"
          by (simp add: same_page_def same_level1_block_def bml_index_eq_iff)
        with 2 show ?thesis by (simp add: add.commute)
      next
        case 3
        then have "n - 18 < 9" by simp
        with sp have "bit v (30 + (n - 18)) = bit w (30 + (n - 18))"
          by (simp add: same_page_def same_level1_block_def bml_index_eq_iff)
        with 3 show ?thesis by (simp add: add.commute)
      next
        case 4
        then have "n - 27 < 9" by simp
        with sp have "bit v (39 + (n - 27)) = bit w (39 + (n - 27))"
          by (simp add: same_page_def same_level1_block_def bml_index_eq_iff)
        with 4 show ?thesis by (simp add: add.commute)
      qed
    qed
  next
    assume a: "\<forall>n<36. bit v (12 + n) = bit w (12 + n)"
    have "bit v (s + n) = bit w (s + n)" if "n < 9" "s \<in> {12, 21, 30, 39}" for s n
    proof -
      from that have "s - 12 + n < 36" "s = 12 + (s - 12)" by auto
      with a [rule_format, of "s - 12 + n"] show ?thesis
        by (metis add.assoc)
    qed
    then show "same_page v w"
      by (simp add: same_page_def same_level1_block_def bml_index_eq_iff)
  qed
  also have "\<dots> \<longleftrightarrow> take_bit 36 (drop_bit 12 v) = take_bit 36 (drop_bit 12 w)"
    by (simp add: take_bit_eq_iff_bits bit_drop_bit_eq add.commute)
  finally show ?thesis .
qed

lemma lone_present_example_block:
  "i < 512 \<Longrightarrow> e AND BLOCK_MAP_PRESENT \<noteq> 0 \<Longrightarrow> lone_present (example_block i e) i"
  unfolding lone_present_def example_block_def list_all_iff
  by (simp add: nth_list_update)

lemma lone_present_example_block_upd:
  "i < 512 \<Longrightarrow> j < 512 \<Longrightarrow> j \<noteq> i \<Longrightarrow> e AND BLOCK_MAP_PRESENT \<noteq> 0 \<Longrightarrow> f AND BLOCK_MAP_PRESENT = 0
     \<Longrightarrow> lone_present ((example_block i e)[j := f]) i"
  unfolding lone_present_def example_block_def list_all_iff
  by (simp add: nth_list_update)

lemma example_block_nth:
  "j < 512 \<Longrightarrow> example_block i e ! j = (if j = i then e else 0)"
  "j < 512 \<Longrightarrow> (example_block i e)[k := f] ! j = (if j = k then f else if j = i then e else 0)"
  unfolding example_block_def by (simp_all add: nth_list_update)

lemma bml_index_example:
  "bml_index 39 0xDEADBEEF0000 = 445" "bml_index 30 0xDEADBEEF0000 = 182"
  "bml_index 21 0xDEADBEEF0000 = 503" "bml_index 12 0xDEADBEEF0000 = 240"
  by (simp_all add: bml_index_def)


lemmas read_info_eval =
  read_info_for_page_def read_cached_block_def Let_def example_image_def example_block_nth
  BLOCK_MAP_PRESENT_def BLOCK_MAP_ID_SHIFT_def

lemma single_page_map_example: "single_page_map example_image 1 0xDEADBEEF0000 0x2A01"
  by (simp add: single_page_map_def example_image_def bml_index_example
      lone_present_example_block lone_present_example_block_upd BLOCK_MAP_PRESENT_def
      BLOCK_MAP_ID_SHIFT_def example_block_nth)

text \<open>
  C8, as stated: in a block map where only one virtual address is PRESENT, with data block
  42, the walk returns 0 for every other address. In the example map only the page of
  \<open>0xDEADBEEF0000\<close> is PRESENT. The address \<open>0xDEADBEEF0008\<close> lies in the same page and gets
  the entry of the page, with data block 42; the address \<open>0xDEADBEEF1000\<close> of the next page
  gets the level-1 entry of that page as it is, \<open>0x2B00\<close>, which is not PRESENT and not 0.
\<close>

theorem other_addresses_not_all_zero:
  "single_page_map example_image 1 0xDEADBEEF0000 0x2A01
   \<and> drop_bit 8 (0x2A01 :: u64) = 42
   \<and> map_sum id fst (read_info_for_page [] example_image 1 0xDEADBEEF0000) = Inr 0x2A01
   \<and> map_sum id fst (read_info_for_page [] example_image 1 0xDEADBEEF0008) = Inr 0x2A01
   \<and> map_sum id fst (read_info_for_page [] example_image 1 0xDEADBEEF1000) = Inr 0x2B00"
  using single_page_map_example by (simp add: read_info_eval)

text \<open>
  C8, amended. With a cache that agrees with the image, \<^verbatim>\<open>read_info_for_page\<close> returns what
  the walk of the specification returns: the indices are the 9-bit fields at bits 39, 30,
  21 and 12 of the address; at levels 4, 3 and 2 a non-PRESENT entry gives 0 and a PRESENT
  one leads to the block \<open>entry >> 8\<close>; the level-1 entry is returned as it is. Two addresses
  have the same indices iff they agree in bits 12 to 47. So in a block map where only the
  page of \<open>v0\<close> is PRESENT, with level-1 entry \<open>e0\<close>: every address in that page gets \<open>e0\<close>;
  every address of another page gets an entry that is not PRESENT, and that is 0 when the
  address does not share the level-1 block of \<open>v0\<close>.
\<close>

theorem read_info_for_page_resolution:
  assumes "cache_ok disk cache"
  shows "map_sum id fst (read_info_for_page cache disk root v) = spec_read_info disk root v
       \<and> (same_page v v0 \<longleftrightarrow> take_bit 36 (drop_bit 12 v) = take_bit 36 (drop_bit 12 v0))
       \<and> (single_page_map disk root v0 e0 \<longrightarrow>
            (\<exists>r. map_sum id fst (read_info_for_page cache disk root v) = Inr r
                 \<and> (same_page v v0 \<longrightarrow> r = e0)
                 \<and> (\<not> same_page v v0 \<longrightarrow> r AND BLOCK_MAP_PRESENT = 0)
                 \<and> (\<not> same_level1_block v v0 \<longrightarrow> r = 0)))"
  using read_info_for_page_refines [OF assms, of root v] same_page_iff [of v v0]
    spec_read_info_single_page [of disk root v0 e0 v]
  by simp

theorem read_info_for_page_resolution_witness:
  "cache_ok example_image []
   \<and> single_page_map example_image 1 0xDEADBEEF0000 0x2A01
   \<and> same_page 0xDEADBEEF0000 0xDEADBEEF0000
   \<and> map_sum id fst (read_info_for_page [] example_image 1 0xDEADBEEF0000) = Inr 0x2A01
   \<and> drop_bit 8 (0x2A01 :: u64) = 42"
proof -
  have c: "cache_ok example_image []"
    by (simp add: cache_ok_def)
  have s: "same_page 0xDEADBEEF0000 0xDEADBEEF0000"
    by (simp add: same_page_def same_level1_block_def)
  from read_info_for_page_resolution [OF c, of 1 "0xDEADBEEF0000" "0xDEADBEEF0000" "0x2A01"]
    single_page_map_example s
  have "map_sum id fst (read_info_for_page [] example_image 1 0xDEADBEEF0000) = Inr 0x2A01"
    by auto
  with c s single_page_map_example show ?thesis
    by simp
qed

section \<open>Canonical ranges and \<^verbatim>\<open>mmu_map\<close>\<close>

lemma word_plus1_le1:
  fixes x :: u64
  shows "x + 1 \<le> 1 \<longleftrightarrow> x = 0 \<or> x = - 1"
proof
  assume le: "x + 1 \<le> 1"
  show "x = 0 \<or> x = - 1"
  proof (cases "x = - 1")
    case False
    then have "x + 1 \<noteq> 0"
      by (metis add.commute add_eq_0_iff)
    moreover have "unat (x + 1) \<le> 1" using le by (simp add: word_le_nat_alt)
    ultimately have "unat (x + 1) = 1"
      by (metis One_nat_def le_neq_implies_less less_one unat_eq_0)
    then have "x + 1 = 1" by (metis unat_1 word_unat_eq_iff)
    then show ?thesis by simp
  qed simp
qed auto

lemma is_canonical_addr_bits:
  "is_canonical_addr a \<longleftrightarrow> (\<forall>n::nat. 48 \<le> n \<and> n < 64 \<longrightarrow> bit a n = bit a 48)"
proof -
  have z: "signed_drop_bit 48 a = 0 \<longleftrightarrow> (\<forall>n::nat. 48 \<le> n \<and> n < 64 \<longrightarrow> \<not> bit a n)"
  proof
    assume e: "signed_drop_bit 48 a = 0"
    show "\<forall>n. 48 \<le> n \<and> n < 64 \<longrightarrow> \<not> bit a n"
    proof (intro allI impI)
      fix n :: nat assume n: "48 \<le> n \<and> n < 64"
      have "bit (signed_drop_bit 48 a) (n - 48) = bit a (if 16 \<le> n - 48 \<and> n - 48 < 64 then 63 else 48 + (n - 48))"
        by (simp add: bit_signed_drop_bit_iff)
      with e n show "\<not> bit a n" by (auto split: if_splits)
    qed
  next
    assume a: "\<forall>n. 48 \<le> n \<and> n < 64 \<longrightarrow> \<not> bit a n"
    show "signed_drop_bit 48 a = 0"
      by (rule bit_word_eqI) (use a in \<open>auto simp: bit_signed_drop_bit_iff\<close>)
  qed
  have o: "signed_drop_bit 48 a = - 1 \<longleftrightarrow> (\<forall>n::nat. 48 \<le> n \<and> n < 64 \<longrightarrow> bit a n)"
  proof
    assume e: "signed_drop_bit 48 a = - 1"
    show "\<forall>n. 48 \<le> n \<and> n < 64 \<longrightarrow> bit a n"
    proof (intro allI impI)
      fix n :: nat assume n: "48 \<le> n \<and> n < 64"
      have "bit (signed_drop_bit 48 a) (n - 48) = bit a (if 16 \<le> n - 48 \<and> n - 48 < 64 then 63 else 48 + (n - 48))"
        by (simp add: bit_signed_drop_bit_iff)
      with e n show "bit a n" by (auto split: if_splits)
    qed
  next
    assume a: "\<forall>n. 48 \<le> n \<and> n < 64 \<longrightarrow> bit a n"
    show "signed_drop_bit 48 a = - 1"
      by (rule bit_word_eqI) (use a in \<open>auto simp: bit_signed_drop_bit_iff\<close>)
  qed
  show ?thesis
    unfolding is_canonical_addr_def word_plus1_le1 z o
    by (cases "bit a 48") auto
qed


lemma extends_from_bit_iff:
  "k < 64 \<Longrightarrow> extends_from_bit k a \<longleftrightarrow> (\<forall>n::nat. k \<le> n \<and> n < 64 \<longrightarrow> bit a n = bit a k)"
proof
  assume k: "k < 64" and e: "extends_from_bit k a"
  show "\<forall>n::nat. k \<le> n \<and> n < 64 \<longrightarrow> bit a n = bit a k"
  proof (intro allI impI)
    fix n :: nat assume n: "k \<le> n \<and> n < 64"
    have "bit (signed_take_bit k a) n = bit a k"
      using n by (simp add: bit_signed_take_bit_iff min_def)
    moreover from e have "signed_take_bit k a = a" by (simp only: extends_from_bit_def)
    ultimately show "bit a n = bit a k" by (simp only:)
  qed
next
  assume k: "k < 64" and a: "\<forall>n::nat. k \<le> n \<and> n < 64 \<longrightarrow> bit a n = bit a k"
  show "extends_from_bit k a"
    unfolding extends_from_bit_def
  proof (rule bit_word_eqI)
    fix n :: nat assume n: "n < LENGTH(64)"
    show "bit (signed_take_bit k a) n = bit a n"
    proof (cases "n \<le> k")
      case True
      with n show ?thesis by (simp add: bit_signed_take_bit_iff min_def)
    next
      case False
      then have "k \<le> n \<and> n < 64" using n by simp
      with a have "bit a n = bit a k" by blast
      with False n show ?thesis by (simp add: bit_signed_take_bit_iff min_def)
    qed
  qed
qed

lemma bit_and_bit48:
  fixes a :: u64
  shows "bit (a AND push_bit 48 1) n \<longleftrightarrow> bit a n \<and> n = 48"
  unfolding bit_and_iff bit_push_bit_iff bit_1_iff
  by (auto simp: possible_bit_word)

lemma and_bit48_eq_iff:
  fixes a b :: u64
  shows "a AND push_bit 48 1 = b AND push_bit 48 1 \<longleftrightarrow> bit a 48 = bit b 48"
proof
  assume e: "a AND push_bit 48 1 = b AND push_bit 48 1"
  then have "bit (a AND push_bit 48 1) 48 = bit (b AND push_bit 48 1) 48" by (rule arg_cong)
  then show "bit a 48 = bit b 48"
    unfolding bit_and_bit48 by simp
next
  assume e: "bit a 48 = bit b 48"
  show "a AND push_bit 48 1 = b AND push_bit 48 1"
  proof (rule bit_word_eqI)
    fix n :: nat assume "n < LENGTH(64)"
    show "bit (a AND push_bit 48 1) n = bit (b AND push_bit 48 1) n"
      unfolding bit_and_bit48 using e by auto
  qed
qed

lemma is_canonical_range_spec:
  "is_canonical_range virt sz = spec_canonical_range 48 virt sz"
proof -
  have "is_canonical_addr a = extends_from_bit 48 a" for a
    unfolding is_canonical_addr_bits by (rule extends_from_bit_iff [symmetric]) simp
  then show ?thesis
    unfolding is_canonical_range_def spec_canonical_range_def Let_def and_bit48_eq_iff
    by (simp only:)
qed


lemma PAGE_SIZE_pow: "PAGE_SIZE = 2 ^ 12" by (simp add: PAGE_SIZE_def)
lemma LARGE_PAGE_SIZE_pow: "LARGE_PAGE_SIZE = 2 ^ 21" by (simp add: LARGE_PAGE_SIZE_def)

lemma mod_PAGE_SIZE: "x mod PAGE_SIZE = 0 \<longleftrightarrow> PAGE_SIZE dvd x"
  unfolding PAGE_SIZE_pow take_bit_eq_mod [symmetric] by (rule take_bit_eq_0_iff)

lemma mod_LARGE_PAGE_SIZE: "x mod LARGE_PAGE_SIZE = 0 \<longleftrightarrow> LARGE_PAGE_SIZE dvd x"
  unfolding LARGE_PAGE_SIZE_pow take_bit_eq_mod [symmetric] by (rule take_bit_eq_0_iff)

lemma PAGE_dvd_LARGE: "PAGE_SIZE dvd LARGE_PAGE_SIZE"
  unfolding PAGE_SIZE_pow LARGE_PAGE_SIZE_pow by (rule le_imp_power_dvd) simp

lemma same_offset_dvd:
  fixes a b :: u64
  assumes "a mod LARGE_PAGE_SIZE = b mod LARGE_PAGE_SIZE"
  shows "LARGE_PAGE_SIZE dvd a - b"
proof -
  have "a = a div LARGE_PAGE_SIZE * LARGE_PAGE_SIZE + a mod LARGE_PAGE_SIZE"
    by (rule word_mod_div_equality [symmetric])
  moreover have "b = b div LARGE_PAGE_SIZE * LARGE_PAGE_SIZE + b mod LARGE_PAGE_SIZE"
    by (rule word_mod_div_equality [symmetric])
  ultimately have "a - b = (a div LARGE_PAGE_SIZE - b div LARGE_PAGE_SIZE) * LARGE_PAGE_SIZE"
    using assms by (metis add_diff_cancel_right left_diff_distrib)
  then show ?thesis by simp
qed

lemma get_ttl2_alloc: "\<exists>t mem'. get_ttl2 ctx mem virt True = (Some t, mem')"
  by (simp add: get_ttl2_def Let_def split: prod.splits)

lemma map_small_ok:
  "PAGE_SIZE dvd virt \<Longrightarrow> PAGE_SIZE dvd phys \<Longrightarrow> \<exists>mem'. map_small ctx mem virt phys = Inr mem'"
  using get_ttl2_alloc [of ctx mem virt]
  by (auto simp: map_small_def mod_PAGE_SIZE Let_def split: prod.splits)

lemma map_large_ok:
  "LARGE_PAGE_SIZE dvd virt \<Longrightarrow> LARGE_PAGE_SIZE dvd phys
     \<Longrightarrow> \<exists>mem'. map_large ctx mem virt phys = Inr mem'"
  using get_ttl2_alloc [of ctx mem virt]
  by (auto simp: map_large_def mod_LARGE_PAGE_SIZE Let_def split: prod.splits)

lemma aligned_not_less:
  fixes sz :: u64
  assumes "PAGE_SIZE dvd sz" "sz \<noteq> 0"
  shows "\<not> sz < PAGE_SIZE"
proof
  assume "sz < PAGE_SIZE"
  then have "sz mod PAGE_SIZE = sz" by (rule mod_word_less)
  with assms show False by (simp add: mod_PAGE_SIZE [symmetric])
qed

lemma map_small_rest_ok:
  "PAGE_SIZE dvd virt \<Longrightarrow> PAGE_SIZE dvd phys \<Longrightarrow> PAGE_SIZE dvd sz
     \<Longrightarrow> \<exists>mem'. map_small_rest ctx mem virt phys sz = Inr mem'"
proof (induction ctx mem virt phys sz rule: map_small_rest.induct)
  case (1 ctx mem virt phys sz)
  show ?case
  proof (cases "sz = 0")
    case True
    then show ?thesis by (subst map_small_rest.simps) simp
  next
    case False
    with "1.prems" have nl: "\<not> sz < PAGE_SIZE" by (simp add: aligned_not_less)
    from map_small_ok [OF "1.prems"(1,2)] obtain mem1 where m: "map_small ctx mem virt phys = Inr mem1"
      by blast
    from "1.IH" [OF False nl m] "1.prems" obtain mem' where
      "map_small_rest ctx mem1 (virt + PAGE_SIZE) (phys + PAGE_SIZE) (sz - PAGE_SIZE) = Inr mem'"
      by auto
    with False nl m show ?thesis by (subst map_small_rest.simps) simp
  qed
qed

lemma map_small_to_boundary_ok:
  "PAGE_SIZE dvd virt \<Longrightarrow> PAGE_SIZE dvd phys \<Longrightarrow> PAGE_SIZE dvd sz
     \<Longrightarrow> LARGE_PAGE_SIZE dvd virt - phys
     \<Longrightarrow> \<exists>mem' v' p' s'. map_small_to_boundary ctx mem virt phys sz = Inr (mem', v', p', s')
           \<and> PAGE_SIZE dvd v' \<and> PAGE_SIZE dvd p' \<and> PAGE_SIZE dvd s'
           \<and> LARGE_PAGE_SIZE dvd v' - p' \<and> (LARGE_PAGE_SIZE dvd v' \<or> s' = 0)"
proof (induction ctx mem virt phys sz rule: map_small_to_boundary.induct)
  case (1 ctx mem virt phys sz)
  show ?case
  proof (cases "virt mod LARGE_PAGE_SIZE \<noteq> 0 \<and> sz \<noteq> 0")
    case False
    with "1.prems" show ?thesis
      by (subst map_small_to_boundary.simps) (auto simp: mod_LARGE_PAGE_SIZE)
  next
    case True
    with "1.prems" have nl: "\<not> sz < PAGE_SIZE" by (simp add: aligned_not_less)
    from map_small_ok [OF "1.prems"(1,2)] obtain mem1 where m: "map_small ctx mem virt phys = Inr mem1"
      by blast
    from "1.IH" [OF True nl m] "1.prems" obtain mem' v' p' s' where
      "map_small_to_boundary ctx mem1 (virt + PAGE_SIZE) (phys + PAGE_SIZE) (sz - PAGE_SIZE)
         = Inr (mem', v', p', s')"
      "PAGE_SIZE dvd v'" "PAGE_SIZE dvd p'" "PAGE_SIZE dvd s'"
      "LARGE_PAGE_SIZE dvd v' - p'" "LARGE_PAGE_SIZE dvd v' \<or> s' = 0"
      by auto
    with True nl m show ?thesis by (subst map_small_to_boundary.simps) simp
  qed
qed

lemma map_large_pages_ok:
  "PAGE_SIZE dvd virt \<Longrightarrow> PAGE_SIZE dvd phys \<Longrightarrow> PAGE_SIZE dvd sz
     \<Longrightarrow> LARGE_PAGE_SIZE dvd virt - phys \<Longrightarrow> LARGE_PAGE_SIZE dvd virt \<or> sz = 0
     \<Longrightarrow> \<exists>mem' v' p' s'. map_large_pages ctx mem virt phys sz = Inr (mem', v', p', s')
           \<and> PAGE_SIZE dvd v' \<and> PAGE_SIZE dvd p' \<and> PAGE_SIZE dvd s'"
proof (induction ctx mem virt phys sz rule: map_large_pages.induct)
  case (1 ctx mem virt phys sz)
  show ?case
  proof (cases "sz div LARGE_PAGE_SIZE \<noteq> 0")
    case False
    with "1.prems" show ?thesis
      by (subst map_large_pages.simps) auto
  next
    case True
    then have "sz \<noteq> 0" by auto
    with "1.prems" have a: "LARGE_PAGE_SIZE dvd virt" by auto
    from a "1.prems"(4) have "LARGE_PAGE_SIZE dvd virt - (virt - phys)" by (rule dvd_diff)
    then have b: "LARGE_PAGE_SIZE dvd phys" by simp
    from map_large_ok [OF a b] obtain mem1 where m: "map_large ctx mem virt phys = Inr mem1"
      by blast
    have l: "PAGE_SIZE dvd x \<Longrightarrow> PAGE_SIZE dvd x + LARGE_PAGE_SIZE"
      "PAGE_SIZE dvd x \<Longrightarrow> PAGE_SIZE dvd x - LARGE_PAGE_SIZE" for x
      using PAGE_dvd_LARGE by (simp_all add: dvd_add dvd_diff)
    from "1.IH" [OF True m] "1.prems" a l obtain mem' v' p' s' where
      "map_large_pages ctx mem1 (virt + LARGE_PAGE_SIZE) (phys + LARGE_PAGE_SIZE)
         (sz - LARGE_PAGE_SIZE) = Inr (mem', v', p', s')"
      "PAGE_SIZE dvd v'" "PAGE_SIZE dvd p'" "PAGE_SIZE dvd s'"
      by auto
    with True m show ?thesis by (subst map_large_pages.simps) simp
  qed
qed

lemma mmu_map_result:
  assumes "virt mod PAGE_SIZE = 0" "phys mod PAGE_SIZE = 0" "sz mod PAGE_SIZE = 0"
  shows "\<exists>mem'. mmu_map ctx mem virt phys sz = Inr (is_canonical_range virt sz, mem')
           \<and> (\<not> is_canonical_range virt sz \<longrightarrow> mem' = mem)"
proof (cases "is_canonical_range virt sz")
  case False
  with assms show ?thesis by (simp add: mmu_map_def)
next
  case True
  from assms have a: "PAGE_SIZE dvd virt" "PAGE_SIZE dvd phys" "PAGE_SIZE dvd sz"
    by (simp_all add: mod_PAGE_SIZE)
  let ?large = "if virt mod LARGE_PAGE_SIZE = phys mod LARGE_PAGE_SIZE then
             case map_small_to_boundary ctx mem virt phys sz of
               Inl a \<Rightarrow> Inl a
             | Inr (mem1, virt1, phys1, sz1) \<Rightarrow> map_large_pages ctx mem1 virt1 phys1 sz1
           else Inr (mem, virt, phys, sz)"
  have "\<exists>mem2 v2 p2 s2. ?large = Inr (mem2, v2, p2, s2)
          \<and> PAGE_SIZE dvd v2 \<and> PAGE_SIZE dvd p2 \<and> PAGE_SIZE dvd s2"
  proof (cases "virt mod LARGE_PAGE_SIZE = phys mod LARGE_PAGE_SIZE")
    case False
    with a show ?thesis by simp
  next
    case eq: True
    from map_small_to_boundary_ok [OF a same_offset_dvd [OF eq], of ctx mem] obtain mem1 v1 p1 s1 where
      b: "map_small_to_boundary ctx mem virt phys sz = Inr (mem1, v1, p1, s1)"
      "PAGE_SIZE dvd v1" "PAGE_SIZE dvd p1" "PAGE_SIZE dvd s1"
      "LARGE_PAGE_SIZE dvd v1 - p1" "LARGE_PAGE_SIZE dvd v1 \<or> s1 = 0"
      by blast
    from map_large_pages_ok [OF b(2-6), of ctx mem1] b(1) eq show ?thesis
      by auto
  qed
  then obtain mem2 v2 p2 s2 where
    c: "?large = Inr (mem2, v2, p2, s2)"
    "PAGE_SIZE dvd v2" "PAGE_SIZE dvd p2" "PAGE_SIZE dvd s2"
    by blast
  from map_small_rest_ok [OF c(2-4), of ctx mem2] obtain mem3 where
    "map_small_rest ctx mem2 v2 p2 s2 = Inr mem3" by blast
  with True assms c(1) show ?thesis
    by (simp add: mmu_map_def)
qed


lemma word_two_not_le_one: "\<not> (2::u64) \<le> 1"
  by (simp add: word_le_def)

text \<open>
  C9, as stated: \<^verbatim>\<open>mmu_map\<close> returns false iff the range is not canonical, where canonical
  means that both ends sign-extend from bit 47. The page at \<open>0x0000800000000000\<close> has bit 47
  set and the bits above it clear, so it does not sign-extend from bit 47; \<^verbatim>\<open>mmu_map\<close>
  accepts it and returns true.
\<close>

theorem mmu_map_accepts_bit47_page:
  "0x0000800000000000 mod PAGE_SIZE = 0
   \<and> 0x1000 mod PAGE_SIZE = 0
   \<and> \<not> spec_canonical_range 47 0x0000800000000000 0x1000
   \<and> map_sum id fst (mmu_map example_context example_memory 0x0000800000000000 0 0x1000) = Inr True"
proof -
  have a: "(0x0000800000000000 :: u64) mod PAGE_SIZE = 0" "(0 :: u64) mod PAGE_SIZE = 0"
    "(0x1000 :: u64) mod PAGE_SIZE = 0"
    by (simp_all add: PAGE_SIZE_def)
  have c: "is_canonical_range 0x0000800000000000 0x1000"
    by (simp add: is_canonical_range_def is_canonical_addr_def Let_def)
  have n: "\<not> spec_canonical_range 47 0x0000800000000000 0x1000"
    by (simp add: spec_canonical_range_def extends_from_bit_def Let_def)
  from mmu_map_result [OF a, of example_context example_memory] c
  have "map_sum id fst (mmu_map example_context example_memory 0x0000800000000000 0 0x1000) = Inr True"
    by auto
  with a n show ?thesis by simp
qed

text \<open>
  C9, amended. For every 4-KiB-aligned \<open>virt\<close>, \<open>phys\<close> and \<open>size\<close>, \<^verbatim>\<open>mmu_map\<close> returns false iff
  the virtual range is not canonical in the sense of this port: each of \<open>virt\<close> and
  \<open>virt + size - 1\<close> sign-extends from bit 48 (its bits 63 to 48 are all equal) and the two
  agree in bit 48. When it returns false the memory, and with it the paging context, is
  unchanged.
\<close>

theorem mmu_map_canonical:
  assumes "virt mod PAGE_SIZE = 0" and "phys mod PAGE_SIZE = 0" and "sz mod PAGE_SIZE = 0"
  shows "\<exists>mem'. mmu_map ctx mem virt phys sz = Inr (spec_canonical_range 48 virt sz, mem')
           \<and> (\<not> spec_canonical_range 48 virt sz \<longrightarrow> mem' = mem)"
  using mmu_map_result [OF assms, of ctx mem] by (simp add: is_canonical_range_spec)

theorem mmu_map_canonical_witness:
  "0x0001000000000000 mod PAGE_SIZE = 0
   \<and> 0x200000 mod PAGE_SIZE = 0
   \<and> 0x1000 mod PAGE_SIZE = 0
   \<and> \<not> spec_canonical_range 48 0x0001000000000000 0x1000
   \<and> mmu_map example_context example_memory 0x0001000000000000 0x200000 0x1000
       = Inr (False, example_memory)"
proof -
  have a: "(0x0001000000000000 :: u64) mod PAGE_SIZE = 0" "(0x200000 :: u64) mod PAGE_SIZE = 0"
    "(0x1000 :: u64) mod PAGE_SIZE = 0"
    by (simp_all add: PAGE_SIZE_def)
  have n: "\<not> spec_canonical_range 48 0x0001000000000000 0x1000"
    unfolding is_canonical_range_spec [symmetric]
    by (simp add: is_canonical_range_def is_canonical_addr_def Let_def word_two_not_le_one)
  from mmu_map_canonical [OF a, of example_context example_memory] n
  have "mmu_map example_context example_memory 0x0001000000000000 0x200000 0x1000
          = Inr (False, example_memory)"
    by auto
  with a n show ?thesis by simp
qed

section \<open>The buddy allocator: releasing pages and coalescence\<close>

lemma bit_low_byte: "bit (x AND (0xFF :: u64)) n \<longleftrightarrow> bit x n \<and> n < 8"
proof -
  have m: "(0xFF :: u64) = mask 8" by (simp add: mask_eq_exp_minus_1)
  show ?thesis unfolding m by (auto simp: bit_and_iff bit_mask_iff)
qed

lemma bit_clear_low_byte: "bit (x AND (- 256 :: u64)) n \<longleftrightarrow> bit x n \<and> 8 \<le> n"
proof -
  have m: "(- 256 :: u64) = NOT (mask 8)" by (simp add: mask_eq_exp_minus_1 not_eq_complement)
  show ?thesis unfolding m by (auto simp: bit_and_iff bit_not_iff bit_mask_iff dest: bit_imp_le_length)
qed

lemma bit_clear_second_byte: "bit (x AND (- 65281 :: u64)) n \<longleftrightarrow> bit x n \<and> (n < 8 \<or> 16 \<le> n)"
proof -
  have m: "(- 65281 :: u64) = NOT (push_bit 8 (mask 8))"
    by (simp add: mask_eq_exp_minus_1 not_eq_complement)
  show ?thesis unfolding m
    by (auto simp: bit_and_iff bit_not_iff bit_push_bit_iff bit_mask_iff possible_bit_word
        dest: bit_imp_le_length)
qed

lemma bit_byte_shifted:
  "bit (push_bit 8 (ucast (v :: u8) :: u64)) n \<longleftrightarrow> 8 \<le> n \<and> n < 16 \<and> bit v (n - 8)"
  by (auto simp: bit_push_bit_iff bit_ucast_iff possible_bit_word dest: bit_imp_le_length)

lemma low_byte_bits:
  fixes v :: u64
  assumes "v AND 0xFF = v" and "bit v n"
  shows "n < 8"
  using assms bit_low_byte [of v n] by simp

text \<open>The flags word after the two kinds of update, read back as type and as bin.\<close>

lemma type_of_set_type:
  assumes "v AND 0xFF = v"
  shows "unfixnum (fixnum (unfixnum f AND - 256 OR v)) AND 0xFF = v"
  by (intro bit_word_eqI)
     (auto simp: bit_low_byte bit_unfixnum bit_fixnum bit_or_iff bit_clear_low_byte
       dest: low_byte_bits [OF assms])

lemma bin_of_set_type:
  assumes "v AND 0xFF = v"
  shows "signed_drop_bit 8 (unfixnum (fixnum (unfixnum f AND - 256 OR v))) AND 0xFF
           = signed_drop_bit 8 (unfixnum f) AND 0xFF"
  by (intro bit_word_eqI)
     (auto simp: bit_low_byte bit_unfixnum bit_fixnum bit_or_iff bit_clear_low_byte
          bit_signed_drop_bit_iff dest: low_byte_bits [OF assms])

lemma type_of_set_bin:
  "unfixnum (fixnum (unfixnum f AND - 65281 OR push_bit 8 (ucast (b :: u8)))) AND 0xFF
     = unfixnum f AND 0xFF"
  by (intro bit_word_eqI)
     (auto simp: bit_low_byte bit_unfixnum bit_fixnum bit_or_iff bit_clear_second_byte
        bit_byte_shifted)

lemma bin_of_set_bin:
  "ucast (signed_drop_bit 8
            (unfixnum (fixnum (unfixnum f AND - 65281 OR push_bit 8 (ucast (b :: u8)))))
          AND (0xFF :: u64)) = b"
  by (intro bit_word_eqI)
     (auto simp: bit_low_byte bit_unfixnum bit_fixnum bit_or_iff bit_clear_second_byte
        bit_byte_shifted bit_ucast_iff bit_signed_drop_bit_iff dest: bit_imp_le_length)

lemmas info_defs =
  page_info_type_def page_info_bin_def page_info_next_def page_info_prev_def page_info_flags_def
  set_page_info_type_def set_page_info_bin_def set_page_info_next_def set_page_info_prev_def
  set_page_info_flags_def

lemma free_is_byte: "page_type_free AND 0xFF = page_type_free"
  by (simp add: page_type_free_def)

lemma reads_after_set_type [simp]:
  "v AND 0xFF = v \<Longrightarrow> page_info_type (set_page_info_type mmu a v) q
     = (if a div PAGE_SIZE = q div PAGE_SIZE then v else page_info_type mmu q)"
  "v AND 0xFF = v \<Longrightarrow> page_info_bin (set_page_info_type mmu a v) q = page_info_bin mmu q"
  "page_info_next (set_page_info_type mmu a v) q = page_info_next mmu q"
  "page_info_prev (set_page_info_type mmu a v) q = page_info_prev mmu q"
  by (simp_all add: info_defs Let_def type_of_set_type bin_of_set_type)

lemma reads_after_set_bin [simp]:
  "page_info_type (set_page_info_bin mmu a b) q = page_info_type mmu q"
  "page_info_bin (set_page_info_bin mmu a b) q
     = (if a div PAGE_SIZE = q div PAGE_SIZE then b else page_info_bin mmu q)"
  "page_info_next (set_page_info_bin mmu a b) q = page_info_next mmu q"
  "page_info_prev (set_page_info_bin mmu a b) q = page_info_prev mmu q"
  by (simp_all add: info_defs Let_def type_of_set_bin bin_of_set_bin)

lemma reads_after_set_next [simp]:
  "page_info_type (set_page_info_next mmu a v) q = page_info_type mmu q"
  "page_info_bin (set_page_info_next mmu a v) q = page_info_bin mmu q"
  "page_info_next (set_page_info_next mmu a v) q
     = (if a div PAGE_SIZE = q div PAGE_SIZE then v else page_info_next mmu q)"
  "page_info_prev (set_page_info_next mmu a v) q = page_info_prev mmu q"
  by (simp_all add: info_defs)

lemma reads_after_set_prev [simp]:
  "page_info_type (set_page_info_prev mmu a v) q = page_info_type mmu q"
  "page_info_bin (set_page_info_prev mmu a v) q = page_info_bin mmu q"
  "page_info_next (set_page_info_prev mmu a v) q = page_info_next mmu q"
  "page_info_prev (set_page_info_prev mmu a v) q
     = (if a div PAGE_SIZE = q div PAGE_SIZE then v else page_info_prev mmu q)"
  by (simp_all add: info_defs)

text \<open>Reads at a frame depend on the info struct of the frame only.\<close>

lemma reads_cong:
  assumes "mmu (q div PAGE_SIZE) = mmu' (q div PAGE_SIZE)"
  shows "page_info_type mmu q = page_info_type mmu' q"
    and "page_info_bin mmu q = page_info_bin mmu' q"
    and "page_info_next mmu q = page_info_next mmu' q"
    and "page_info_prev mmu q = page_info_prev mmu' q"
  using assms by (simp_all add: info_defs)

text \<open>The same write into two windows that agree at a frame leaves them agreeing there.\<close>

lemma writes_cong:
  assumes "mmu f = mmu' f"
  shows "set_page_info_type mmu a v f = set_page_info_type mmu' a v f"
    and "set_page_info_next mmu a v f = set_page_info_next mmu' a v f"
    and "set_page_info_prev mmu a v f = set_page_info_prev mmu' a v f"
    and "set_page_info_bin mmu a b f = set_page_info_bin mmu' a b f"
  using assms by (auto simp: info_defs Let_def)

subsection \<open>Blocks and buddies\<close>

lemma bit_buddy:
  "bit (buddy k x) n \<longleftrightarrow> (if n = 12 + k then \<not> bit x n \<and> n < 64 else bit x n)"
  unfolding buddy_def log2_4k_page_def bit_xor_iff bit_push_bit_iff bit_1_iff
  by (auto simp: possible_bit_word dest: bit_imp_le_length)

lemma drop_bit_eq_bits:
  fixes x y :: u64
  shows "drop_bit n x = drop_bit n y \<longleftrightarrow> (\<forall>i. n \<le> i \<longrightarrow> bit x i = bit y i)"
proof
  assume e: "drop_bit n x = drop_bit n y"
  show "\<forall>i. n \<le> i \<longrightarrow> bit x i = bit y i"
  proof (intro allI impI)
    fix i assume "n \<le> i"
    from e have "bit (drop_bit n x) (i - n) = bit (drop_bit n y) (i - n)" by simp
    with \<open>n \<le> i\<close> show "bit x i = bit y i" by (simp add: bit_drop_bit_eq)
  qed
next
  assume "\<forall>i. n \<le> i \<longrightarrow> bit x i = bit y i"
  then show "drop_bit n x = drop_bit n y"
    by (intro bit_word_eqI) (simp add: bit_drop_bit_eq)
qed

lemma buddy_outside_block:
  assumes "K \<le> k" and "12 + k < 64" and "drop_bit (12 + k) l = drop_bit (12 + k) b"
  shows "\<not> in_block b K (buddy k l)"
proof
  assume "in_block b K (buddy k l)"
  with assms(1) have "bit (buddy k l) (12 + k) = bit b (12 + k)"
    by (simp add: in_block_def drop_bit_eq_bits)
  moreover from assms(3) have "bit l (12 + k) = bit b (12 + k)"
    by (simp add: drop_bit_eq_bits)
  ultimately show False using assms(2) by (simp add: bit_buddy)
qed

lemma merged_block_agrees:
  assumes "drop_bit (12 + k) l = drop_bit (12 + k) b"
  shows "drop_bit (12 + (k + 1)) (if buddy k l < l then buddy k l else l) = drop_bit (12 + (k + 1)) b"
  using assms by (auto simp: drop_bit_eq_bits bit_buddy)

lemma in_block_frame:
  assumes "q div PAGE_SIZE = q' div PAGE_SIZE"
  shows "in_block b K q = in_block b K q'"
proof -
  have d: "x div PAGE_SIZE = drop_bit 12 x" for x :: u64
    by (simp add: PAGE_SIZE_def drop_bit_eq_div)
  from assms have "\<forall>i. 12 \<le> i \<longrightarrow> bit q i = bit q' i"
    by (simp add: d drop_bit_eq_bits)
  then show ?thesis
    by (simp add: in_block_def drop_bit_eq_bits)
qed

subsection \<open>Agreement outside a block is kept by the allocator\<close>

lemma agree_reads:
  assumes "agree_outside b K u v" and "\<not> in_block b K p"
  shows "page_info_type (fst u) p = page_info_type (fst v) p"
    and "page_info_bin (fst u) p = page_info_bin (fst v) p"
    and "page_info_next (fst u) p = page_info_next (fst v) p"
    and "page_info_prev (fst u) p = page_info_prev (fst v) p"
proof -
  from assms have "fst u (p div PAGE_SIZE) = fst v (p div PAGE_SIZE)"
    by (auto simp: agree_outside_def)
  then show "page_info_type (fst u) p = page_info_type (fst v) p"
    and "page_info_bin (fst u) p = page_info_bin (fst v) p"
    and "page_info_next (fst u) p = page_info_next (fst v) p"
    and "page_info_prev (fst u) p = page_info_prev (fst v) p"
    by (rule reads_cong)+
qed

lemma agree_writes:
  assumes "agree_outside b K (mu, bi) (mv, bi')"
  shows "agree_outside b K (set_page_info_type mu a x, bi) (set_page_info_type mv a x, bi')"
    and "agree_outside b K (set_page_info_next mu a x, bi) (set_page_info_next mv a x, bi')"
    and "agree_outside b K (set_page_info_prev mu a x, bi) (set_page_info_prev mv a x, bi')"
    and "agree_outside b K (set_page_info_bin mu a y, bi) (set_page_info_bin mv a y, bi')"
  using assms by (auto simp: agree_outside_def intro: writes_cong)

lemma agree_boot_info:
  "agree_outside b K (mu, bi) (mv, bi') \<Longrightarrow> agree_outside b K (mu, f bi) (mv, f bi')"
  by (simp add: agree_outside_def)

lemma agree_stop:
  assumes "agree_outside b K u v" and "\<not> in_block b K p"
  shows "stop_combining (fst u) (snd u) m k p = stop_combining (fst v) (snd v) m k p"
  using agree_reads [OF assms] assms(1) by (simp add: stop_combining_def agree_outside_def)

lemma agree_remove_buddy:
  assumes "agree_outside b K u v" and "\<not> in_block b K p"
  shows "agree_outside b K (remove_buddy u nilv sel k p) (remove_buddy v nilv sel k p)"
proof -
  obtain mu bi where u: "u = (mu, bi)" by (cases u)
  obtain mv bi' where v: "v = (mv, bi')" by (cases v)
  from assms(1) have bi: "bi' = bi" by (simp add: agree_outside_def u v)
  note a = assms(1) [unfolded u v bi]
  note r = agree_reads [OF assms, unfolded u v bi fst_conv]
  let ?mu1 = "if page_info_next mu p \<noteq> nilv
              then set_page_info_prev mu (unfixnum (page_info_next mu p) * PAGE_SIZE) (page_info_prev mu p)
              else mu"
  let ?mv1 = "if page_info_next mv p \<noteq> nilv
              then set_page_info_prev mv (unfixnum (page_info_next mv p) * PAGE_SIZE) (page_info_prev mv p)
              else mv"
  have a1: "agree_outside b K (?mu1, bi) (?mv1, bi)"
    using a r by (simp add: agree_writes)
  note r1 = agree_reads [OF a1 assms(2), unfolded fst_conv]
  let ?mu2 = "if page_info_prev ?mu1 p \<noteq> nilv
              then set_page_info_next ?mu1 (unfixnum (page_info_prev ?mu1 p) * PAGE_SIZE)
                     (page_info_next ?mu1 p)
              else ?mu1"
  let ?mv2 = "if page_info_prev ?mv1 p \<noteq> nilv
              then set_page_info_next ?mv1 (unfixnum (page_info_prev ?mv1 p) * PAGE_SIZE)
                     (page_info_next ?mv1 p)
              else ?mv1"
  have a2: "agree_outside b K (?mu2, bi) (?mv2, bi)"
  proof (cases "page_info_prev ?mu1 p \<noteq> nilv")
    case True
    with r1 have "page_info_prev ?mv1 p \<noteq> nilv" by simp
    with True r1 agree_writes(2) [OF a1] show ?thesis by simp
  next
    case False
    with r1 have "\<not> page_info_prev ?mv1 p \<noteq> nilv" by simp
    with False a1 show ?thesis by simp
  qed
  show ?thesis
    unfolding u v bi remove_buddy_def Let_def split_conv
    using a2 r by (simp add: agree_outside_def)
qed

lemma agree_push_free:
  assumes "agree_outside b K u v"
  shows "agree_outside b K (push_free u nilv sel k l) (push_free v nilv sel k l)"
proof -
  obtain mu bi where u: "u = (mu, bi)" by (cases u)
  obtain mv bi' where v: "v = (mv, bi')" by (cases v)
  from assms have bi: "bi' = bi" by (simp add: agree_outside_def u v)
  note a = assms [unfolded u v bi]
  have "agree_outside b K
          (set_page_info_prev
             (set_page_info_next (set_page_info_bin (set_page_info_type mu l page_type_free) l (of_nat k))
                l (bin_first_page sel k bi)) l nilv, bi)
          (set_page_info_prev
             (set_page_info_next (set_page_info_bin (set_page_info_type mv l page_type_free) l (of_nat k))
                l (bin_first_page sel k bi)) l nilv, bi)"
    by (intro agree_writes a)
  then show ?thesis
    unfolding u v bi push_free_def Let_def split_conv
    by (auto simp: agree_outside_def intro: writes_cong)
qed

lemma agree_combine_loop:
  assumes "agree_outside b K u v" and "K \<le> k" and "m < 52"
    and "drop_bit (12 + k) l = drop_bit (12 + k) b"
  shows "\<exists>u1 v1 k1 l1. combine_loop u nilv sel m k l = (u1, k1, l1)
           \<and> combine_loop v nilv sel m k l = (v1, k1, l1) \<and> agree_outside b K u1 v1"
  using assms
proof (induction u nilv sel m k l arbitrary: v rule: combine_loop.induct)
  case (1 st nilv sel m k l)
  let ?p = "buddy k l"
  show ?case
  proof (cases "stop_combining (fst st) (snd st) m k ?p \<or> m < k")
    case stop: True
    show ?thesis
    proof (cases "m < k")
      case True
      then have "combine_loop st nilv sel m k l = (st, k, l)"
        and "combine_loop v nilv sel m k l = (v, k, l)"
        by (subst combine_loop.simps, simp add: Let_def)+
      with "1.prems"(1) show ?thesis by blast
    next
      case False
      then have "12 + k < 64" using "1.prems"(3) by simp
      from buddy_outside_block [OF "1.prems"(2) this "1.prems"(4)]
      have out: "\<not> in_block b K ?p" .
      from agree_stop [OF "1.prems"(1) out] stop False
      have "combine_loop st nilv sel m k l = (st, k, l)"
        and "combine_loop v nilv sel m k l = (v, k, l)"
        by (subst combine_loop.simps, simp add: Let_def)+
      with "1.prems"(1) show ?thesis by blast
    qed
  next
    case go: False
    then have k: "12 + k < 64" using "1.prems"(3) by simp
    from buddy_outside_block [OF "1.prems"(2) k "1.prems"(4)]
    have out: "\<not> in_block b K ?p" .
    from agree_stop [OF "1.prems"(1) out] go
    have gov: "\<not> stop_combining (fst v) (snd v) m k ?p" by simp
    have a: "agree_outside b K (remove_buddy st nilv sel k ?p) (remove_buddy v nilv sel k ?p)"
      using "1.prems"(1) out by (rule agree_remove_buddy)
    have l: "drop_bit (12 + (k + 1)) (if ?p < l then ?p else l) = drop_bit (12 + (k + 1)) b"
      using "1.prems"(4) by (rule merged_block_agrees)
    from go have g1: "\<not> stop_combining (fst st) (snd st) m k ?p" and g2: "\<not> m < k" by simp_all
    from "1.IH" [OF refl g1 g2 a _ "1.prems"(3) l] "1.prems"(2)
    obtain u1 v1 k1 l1 where
      "combine_loop (remove_buddy st nilv sel k ?p) nilv sel m (k + 1) (if ?p < l then ?p else l)
         = (u1, k1, l1)"
      "combine_loop (remove_buddy v nilv sel k ?p) nilv sel m (k + 1) (if ?p < l then ?p else l)
         = (v1, k1, l1)"
      "agree_outside b K u1 v1"
      by auto
    moreover have "combine_loop st nilv sel m k l
        = combine_loop (remove_buddy st nilv sel k ?p) nilv sel m (k + 1) (if ?p < l then ?p else l)"
      using g1 g2 by (subst combine_loop.simps) (simp add: Let_def)
    moreover have "combine_loop v nilv sel m k l
        = combine_loop (remove_buddy v nilv sel k ?p) nilv sel m (k + 1) (if ?p < l then ?p else l)"
      using gov g2 by (subst combine_loop.simps) (simp add: Let_def)
    ultimately show ?thesis by simp
  qed
qed

lemma agree_free_at_order:
  assumes "agree_outside b K u v" and "K \<le> k" and "m < 52"
    and "drop_bit (12 + k) l = drop_bit (12 + k) b"
  shows "agree_outside b K (free_at_order u nilv sel m k l) (free_at_order v nilv sel m k l)"
proof -
  from agree_combine_loop [OF assms] obtain u1 v1 k1 l1 where
    "combine_loop u nilv sel m k l = (u1, k1, l1)" "combine_loop v nilv sel m k l = (v1, k1, l1)"
    "agree_outside b K u1 v1"
    by blast
  then show ?thesis
    by (simp add: free_at_order_def agree_push_free)
qed

subsection \<open>Aligned blocks\<close>

lemma take_bit_zero_bits:
  fixes c :: u64
  shows "take_bit n c = 0 \<longleftrightarrow> (\<forall>i<n. \<not> bit c i)"
proof
  assume z: "take_bit n c = 0"
  show "\<forall>i<n. \<not> bit c i"
  proof (intro allI impI)
    fix i assume "i < n"
    from z have "bit (take_bit n c) i = bit (0 :: u64) i" by simp
    with \<open>i < n\<close> show "\<not> bit c i" by (simp add: bit_take_bit_iff)
  qed
next
  assume "\<forall>i<n. \<not> bit c i"
  then show "take_bit n c = 0"
    by (intro bit_word_eqI) (simp add: bit_take_bit_iff)
qed

lemma buddy_buddy: "buddy k (buddy k c) = c"
  by (simp add: buddy_def xor.assoc)

lemma buddy_plus:
  assumes "\<not> bit c (12 + k)"
  shows "buddy k c = c + 2 ^ (12 + k)"
proof -
  have "c AND push_bit (12 + k) 1 = 0"
    using assms by (intro bit_word_eqI) (auto simp: bit_and_iff bit_push_bit_iff bit_1_iff bit_exp_iff)
  then have "c + push_bit (12 + k) 1 = c XOR push_bit (12 + k) 1"
    by (rule disjunctive_add_eq_xor)
  then show ?thesis
    by (simp add: buddy_def log2_4k_page_def add.commute push_bit_eq_mult)
qed

lemma buddy_greater:
  assumes "\<not> bit c (12 + k)" and "12 + k < 64"
  shows "c < buddy k c"
proof -
  have "c AND push_bit (12 + k) 1 = 0"
    using assms by (intro bit_word_eqI) (auto simp: bit_and_iff bit_push_bit_iff bit_1_iff bit_exp_iff)
  then have "c XOR push_bit (12 + k) 1 = c OR push_bit (12 + k) 1"
    by (rule disjunctive_xor_eq_or)
  then have "c \<le> buddy k c"
    by (simp add: buddy_def log2_4k_page_def add.commute le_word_or2)
  moreover have "bit (buddy k c) (12 + k) \<noteq> bit c (12 + k)"
    using assms by (simp add: bit_buddy)
  then have "buddy k c \<noteq> c" by auto
  ultimately show ?thesis by simp
qed

lemma buddy_less_iff:
  assumes "12 + k < 64"
  shows "buddy k c < c \<longleftrightarrow> bit c (12 + k)"
proof (cases "bit c (12 + k)")
  case True
  then have "\<not> bit (buddy k c) (12 + k)" using assms by (simp add: bit_buddy)
  from buddy_greater [OF this assms] True show ?thesis by (simp add: buddy_buddy)
next
  case False
  from buddy_greater [OF this assms] False show ?thesis by simp
qed

lemma buddy_aligned:
  assumes "take_bit (12 + (k + 1)) c = 0"
  shows "take_bit (12 + k) c = 0" and "\<not> bit c (12 + k)" and "take_bit (12 + k) (buddy k c) = 0"
  using assms by (simp_all add: take_bit_zero_bits bit_buddy)

lemma in_block_self: "in_block c k c"
  by (simp add: in_block_def)

lemma in_block_half:
  assumes "in_block c k q \<or> in_block (buddy k c) k q"
  shows "in_block c (k + 1) q"
  using assms by (auto simp: in_block_def drop_bit_eq_bits bit_buddy)

lemma in_block_other_half:
  assumes "in_block (buddy k c) k q" and "12 + k < 64"
  shows "\<not> in_block c k q"
proof
  assume "in_block c k q"
  with assms(1) have "bit (buddy k c) (12 + k) = bit c (12 + k)"
    by (simp add: in_block_def drop_bit_eq_bits)
  with assms(2) show False by (simp add: bit_buddy)
qed

lemma in_block_sym: "in_block c k q \<Longrightarrow> in_block q k c"
  by (simp add: in_block_def)

lemma frame_in_block:
  assumes "q div PAGE_SIZE = c div PAGE_SIZE"
  shows "in_block c k q"
  using in_block_frame [OF assms, of c k] by (simp add: in_block_self)

subsection \<open>The pages of a block\<close>

lemma block_pages_zero: "block_pages c 0 = [c]"
  by (simp add: block_pages_def)

lemma block_pages_head: "c \<in> set (block_pages c k)"
proof -
  have "c + of_nat 0 * PAGE_SIZE \<in> (\<lambda>i. c + of_nat i * PAGE_SIZE) ` {0..<2 ^ k}"
    by (rule imageI) simp
  then show ?thesis by (simp add: block_pages_def)
qed

lemma block_pages_split:
  assumes "\<not> bit c (12 + k)"
  shows "block_pages c (k + 1) = block_pages c k @ block_pages (buddy k c) k"
proof -
  have u: "[0..<2 ^ (k + 1)] = [0..<2 ^ k] @ map (\<lambda>i. i + 2 ^ k) [0..<2 ^ k]"
    using upt_add_eq_append [of 0 "2 ^ k" "2 ^ k"] by (simp add: map_add_upt mult_2)
  have p: "(2 :: u64) ^ k * PAGE_SIZE = 2 ^ (12 + k)"
    unfolding PAGE_SIZE_pow by (simp only: power_add mult.commute)
  have "c + of_nat (i + 2 ^ k) * PAGE_SIZE = buddy k c + of_nat i * PAGE_SIZE" for i
    by (simp add: buddy_plus [OF assms] distrib_right p add_ac)
  then show ?thesis
    unfolding block_pages_def u by (simp add: comp_def)
qed

lemma nat_bit_below:
  fixes i :: nat
  assumes "i < 2 ^ k" and "bit i j"
  shows "j < k"
proof (rule ccontr)
  assume "\<not> j < k"
  then have "(2 :: nat) ^ k \<le> 2 ^ j" by simp
  with assms(1) have "i < 2 ^ j" by (rule less_le_trans)
  then have "i div 2 ^ j = 0" by simp
  with assms(2) show False by (simp add: bit_iff_odd)
qed

lemma block_pages_in_block:
  assumes "take_bit (12 + k) c = 0" and "q \<in> set (block_pages c k)"
  shows "in_block c k q"
proof -
  from assms(2) obtain i where i: "i < 2 ^ k" and q: "q = c + of_nat i * PAGE_SIZE"
    by (auto simp: block_pages_def)
  let ?x = "push_bit 12 (of_nat i) :: u64"
  have x: "of_nat i * PAGE_SIZE = ?x"
    by (simp add: PAGE_SIZE_pow push_bit_eq_mult)
  have xb: "n < 12 + k" if "bit ?x n" for n
  proof -
    from that have "12 \<le> n" and "bit i (n - 12)"
      by (simp_all add: bit_push_bit_iff bit_of_nat_iff)
    with nat_bit_below [OF i] show ?thesis by fastforce
  qed
  have "c AND ?x = 0"
    using assms(1) xb by (intro bit_word_eqI) (auto simp: bit_and_iff take_bit_zero_bits)
  then have "c + ?x = c OR ?x"
    by (rule disjunctive_add_eq_or)
  moreover have "\<not> bit ?x n" if "12 + k \<le> n" for n
    using xb [of n] that by auto
  ultimately show ?thesis
    unfolding q x in_block_def drop_bit_eq_bits
    by (simp add: bit_or_iff)
qed

subsection \<open>The array picked for a page\<close>

lemma below_4G_bits:
  fixes x :: u64
  shows "x < 0x100000000 \<longleftrightarrow> drop_bit 32 x = 0"
proof -
  have "drop_bit 32 x = 0 \<longleftrightarrow> unat (drop_bit 32 x) = 0"
    by (simp add: unsigned_eq_0_iff)
  also have "\<dots> \<longleftrightarrow> unat x div 2 ^ 32 = 0"
    by (simp add: drop_bit_eq_div unat_div)
  also have "\<dots> \<longleftrightarrow> unat x < 2 ^ 32"
    by (simp add: div_eq_0_iff)
  also have "\<dots> \<longleftrightarrow> x < 0x100000000"
    by (simp add: word_less_nat_alt)
  finally show ?thesis by simp
qed

lemma select_buddies_cases:
  assumes "select_buddies c = (sel, m)"
  shows "(c < 0x100000000 \<and> sel = Buddy_Bin_32 \<and> m = 19)
       \<or> (\<not> c < 0x100000000 \<and> sel = Buddy_Bin_64 \<and> m = 26)"
  using assms
  by (auto simp: select_buddies_def mezzano_n_buddy_bins_32_bit_def
      mezzano_n_buddy_bins_64_bit_def log2_4k_page_def split: if_splits)

lemma select_buddies_buddy:
  assumes "select_buddies c = (sel, m)" and "k < m" and "\<not> bit c (12 + k)"
  shows "select_buddies (buddy k c) = (sel, m)"
proof -
  from select_buddies_cases [OF assms(1)] assms(2) have "12 + k < 32 \<or> \<not> c < 0x100000000 \<and> k < 26"
    by auto
  then have "buddy k c < 0x100000000 \<longleftrightarrow> c < 0x100000000"
  proof
    assume "12 + k < 32"
    then have "drop_bit 32 (buddy k c) = drop_bit 32 c"
      by (auto simp: drop_bit_eq_bits bit_buddy)
    then show ?thesis by (simp add: below_4G_bits)
  next
    assume a: "\<not> c < 0x100000000 \<and> k < 26"
    then have "drop_bit 32 c \<noteq> drop_bit 32 0"
      by (simp add: below_4G_bits)
    then obtain i where i: "32 \<le> i" "bit c i"
      unfolding drop_bit_eq_bits by auto
    with a assms(3) have "bit (buddy k c) i \<noteq> bit (0 :: u64) i"
      by (auto simp: bit_buddy)
    with i(1) have "drop_bit 32 (buddy k c) \<noteq> drop_bit 32 0"
      unfolding drop_bit_eq_bits by blast
    with a show ?thesis by (simp add: below_4G_bits)
  qed
  with assms(1) show ?thesis
    by (simp add: select_buddies_def)
qed

subsection \<open>The bins\<close>

lemma page_exists_from_cong:
  assumes "n_memory_map_entries bi' = n_memory_map_entries bi"
    and "memory_map bi' = memory_map bi"
  shows "page_exists_from bi' page i = page_exists_from bi page i"
  using assms
proof (induction bi page i rule: page_exists_from.induct)
  case (1 boot_info page i)
  show ?case
    by (subst page_exists_from.simps, subst (2) page_exists_from.simps)
       (simp add: 1)
qed

lemma page_exists_set_bin [simp]:
  "page_exists (set_bin sel k b bi) q = page_exists bi q"
  unfolding page_exists_def
  by (rule page_exists_from_cong) (simp_all add: set_bin_def split: bin_array.split)

lemma length_set_bin [simp]:
  "length (buddies_of sel' (set_bin sel k b bi)) = length (buddies_of sel' bi)"
  by (simp add: buddies_of_def set_bin_def split: bin_array.split)

lemma first_page_set_bin:
  "bin_first_page sel j (set_bin sel k b bi)
     = (if j = k \<and> k < length (buddies_of sel bi) then first_page b else bin_first_page sel j bi)"
  by (auto simp: bin_first_page_def buddies_of_def set_bin_def nth_list_update not_less
      list_update_beyond split: bin_array.split)

lemma count_set_bin:
  "bin_count sel j (set_bin sel k b bi)
     = (if j = k \<and> k < length (buddies_of sel bi) then count b else bin_count sel j bi)"
  by (auto simp: bin_count_def buddies_of_def set_bin_def nth_list_update not_less
      list_update_beyond split: bin_array.split)

lemma set_bin_twice [simp]:
  "set_bin sel k b (set_bin sel k b' bi) = set_bin sel k b bi"
  by (simp add: set_bin_def split: bin_array.split)

lemma set_bin_same:
  assumes "bin_first_page sel k bi = first_page b" and "bin_count sel k bi = count b"
  shows "set_bin sel k b bi = bi"
proof -
  from assms have "buddies_of sel bi ! k = b"
    by (simp add: bin_first_page_def bin_count_def)
  then show ?thesis
    by (auto simp: set_bin_def buddies_of_def split: bin_array.split)
qed

subsection \<open>What \<open>push_free\<close> and \<open>remove_buddy\<close> leave\<close>

lemma bin_update_all:
  "(r :: mezzano_buddy_bin)\<lparr>first_page := a, count := b\<rparr> = \<lparr>first_page = a, count = b\<rparr>"
  by (cases r) simp

lemma snd_push_free:
  assumes "k < length (buddies_of sel (snd u))"
  shows "snd (push_free u nilv sel k l)
     = set_bin sel k \<lparr>first_page = fixnum (l div PAGE_SIZE),
                       count = bin_count sel k (snd u) + fixnum 1\<rparr> (snd u)"
proof -
  obtain mmu bi where u: "u = (mmu, bi)" by (cases u)
  from assms have k: "k < length (buddies_of sel bi)" by (simp add: u)
  have "set_bin_count sel k (bin_count sel k (set_bin_first_page sel k a bi) + x)
          (set_bin_first_page sel k a bi)
        = set_bin sel k \<lparr>first_page = a, count = bin_count sel k bi + x\<rparr> bi" for a x
    using k
    by (cases sel)
       (simp_all add: set_bin_count_def set_bin_first_page_def set_bin_def buddies_of_def
          bin_count_def bin_update_all)
  then show ?thesis
    by (simp add: u push_free_def Let_def)
qed

lemma core_push_free:
  "info_core (fst (push_free u nilv sel k l)) l
     = (page_type_free, of_nat k, bin_first_page sel k (snd u),
        if bin_first_page sel k (snd u) \<noteq> nilv
           \<and> (unfixnum (bin_first_page sel k (snd u)) * PAGE_SIZE) div PAGE_SIZE = l div PAGE_SIZE
        then fixnum (l div PAGE_SIZE) else nilv)"
proof -
  obtain mmu bi where u: "u = (mmu, bi)" by (cases u)
  show ?thesis
    by (simp add: u push_free_def Let_def info_core_def free_is_byte)
qed

lemma frames_push_free:
  assumes "bin_first_page sel k (snd u) = nilv" and "f \<noteq> l div PAGE_SIZE"
  shows "fst (push_free u nilv sel k l) f = fst u f"
proof -
  obtain mmu bi where u: "u = (mmu, bi)" by (cases u)
  show ?thesis
    using assms
    by (simp add: u push_free_def Let_def set_page_info_type_def set_page_info_bin_def
        set_page_info_next_def set_page_info_prev_def set_page_info_flags_def)
qed

lemma remove_single:
  assumes "page_info_next (fst u) p = nilv" and "page_info_prev (fst u) p = nilv"
    and "bin_first_page sel k (snd u) = fixnum (p div PAGE_SIZE)"
    and "k < length (buddies_of sel (snd u))"
  shows "remove_buddy u nilv sel k p
     = (fst u, set_bin sel k \<lparr>first_page = nilv, count = bin_count sel k (snd u) - fixnum 1\<rparr>
                 (snd u))"
proof -
  obtain mmu bi where u: "u = (mmu, bi)" by (cases u)
  from assms(4) have k: "k < length (buddies_of sel bi)" by (simp add: u)
  have "set_bin_count sel k (bin_count sel k (set_bin_first_page sel k a bi) - x)
          (set_bin_first_page sel k a bi)
        = set_bin sel k \<lparr>first_page = a, count = bin_count sel k bi - x\<rparr> bi" for a x
    using k
    by (cases sel)
       (simp_all add: set_bin_count_def set_bin_first_page_def set_bin_def buddies_of_def
          bin_count_def bin_update_all)
  then show ?thesis
    using assms(1-3) by (simp add: u remove_buddy_def Let_def)
qed

lemma u8_of_order:
  assumes "k < 256"
  shows "unat (of_nat k :: u8) = k"
  using assms by (simp add: unat_of_nat)

subsection \<open>Releasing a block page by page\<close>

lemma combine_loop_stop:
  assumes "stop_combining (fst s) (snd s) m k (buddy k c)"
  shows "combine_loop s nilv sel m k c = (s, k, c)"
  using assms by (subst combine_loop.simps) (simp add: Let_def)

lemma combine_loop_step:
  assumes "\<not> stop_combining (fst s) (snd s) m k (buddy k c)" and "k \<le> m"
  shows "combine_loop s nilv sel m k c
     = combine_loop (remove_buddy s nilv sel k (buddy k c)) nilv sel m (k + 1)
         (if buddy k c < c then buddy k c else c)"
  using assms by (subst combine_loop.simps) (simp add: Let_def)

lemma release_block_split:
  assumes "\<not> bit c (12 + k)"
  shows "release_block s nilv c (k + 1)
     = release_block (release_block s nilv c k) nilv (buddy k c) k"
  unfolding release_block_def free_pages_def block_pages_split [OF assms] by simp

text \<open>
  A block released where its buddy is not free and its bin is empty: it ends as the only
  entry of the bin, and nothing outside the block has changed.
\<close>

lemma released_alone:
  assumes sim: "agree_outside c k s1 (free_at_order s nilv sel m k c)"
    and core: "info_core (fst s1) (snd (snd (combine_loop s nilv sel m k c)))
         = info_core (fst (free_at_order s nilv sel m k c)) (snd (snd (combine_loop s nilv sel m k c)))"
    and stop: "stop_combining (fst s) (snd s) m k (buddy k c)"
    and empty: "bin_first_page sel k (snd s) = nilv"
    and len: "k < length (buddies_of sel (snd s))"
  shows "snd s1 = set_bin sel k \<lparr>first_page = fixnum (c div PAGE_SIZE),
                                   count = bin_count sel k (snd s) + fixnum 1\<rparr> (snd s)"
    and "info_core (fst s1) c = (page_type_free, of_nat k, nilv, nilv)"
    and "\<forall>q. in_block c k q \<or> fst s1 (q div PAGE_SIZE) = fst s (q div PAGE_SIZE)"
proof -
  note loop = combine_loop_stop [OF stop]
  have f: "free_at_order s nilv sel m k c = push_free s nilv sel k c"
    by (simp add: free_at_order_def loop)
  from sim show "snd s1 = set_bin sel k \<lparr>first_page = fixnum (c div PAGE_SIZE),
                                   count = bin_count sel k (snd s) + fixnum 1\<rparr> (snd s)"
    by (simp add: agree_outside_def f snd_push_free [OF len])
  from core show "info_core (fst s1) c = (page_type_free, of_nat k, nilv, nilv)"
    by (simp add: loop f core_push_free empty)
  show "\<forall>q. in_block c k q \<or> fst s1 (q div PAGE_SIZE) = fst s (q div PAGE_SIZE)"
  proof (intro allI)
    fix q
    show "in_block c k q \<or> fst s1 (q div PAGE_SIZE) = fst s (q div PAGE_SIZE)"
    proof (cases "in_block c k q")
      case True
      then show ?thesis by simp
    next
      case False
      with frame_in_block [of q c k] have "q div PAGE_SIZE \<noteq> c div PAGE_SIZE" by auto
      from frames_push_free [OF empty this]
      have "fst (push_free s nilv sel k c) (q div PAGE_SIZE) = fst s (q div PAGE_SIZE)" .
      moreover from sim False
      have "fst s1 (q div PAGE_SIZE) = fst (push_free s nilv sel k c) (q div PAGE_SIZE)"
        by (auto simp: agree_outside_def f)
      ultimately show ?thesis by simp
    qed
  qed
qed

text \<open>
  The buddy of such a block released next: the two merge, and the outcome is that of
  entering the loop one order higher with the lower of the two.
\<close>

lemma released_second:
  assumes bi1: "snd s1 = set_bin sel k \<lparr>first_page = fixnum (d div PAGE_SIZE),
                                   count = bin_count sel k (snd s) + fixnum 1\<rparr> (snd s)"
    and core1: "info_core (fst s1) d = (page_type_free, of_nat k, nilv, nilv)"
    and fr1: "\<forall>q. in_block d k q \<or> fst s1 (q div PAGE_SIZE) = fst s (q div PAGE_SIZE)"
    and km: "k < m" and m52: "m < 52"
    and ex: "page_exists (snd s) d"
    and len: "k < length (buddies_of sel (snd s))"
    and empty: "bin_first_page sel k (snd s) = nilv"
    and sim2: "agree_outside (buddy k d) k s2 (free_at_order s1 nilv sel m k (buddy k d))"
    and core2: "info_core (fst s2) (snd (snd (combine_loop s1 nilv sel m k (buddy k d))))
         = info_core (fst (free_at_order s1 nilv sel m k (buddy k d)))
             (snd (snd (combine_loop s1 nilv sel m k (buddy k d))))"
    and c: "c = (if d < buddy k d then d else buddy k d)"
  shows "agree_outside c (k + 1) s2 (free_at_order s nilv sel m (k + 1) c)"
    and "info_core (fst s2) (snd (snd (combine_loop s nilv sel m (k + 1) c)))
         = info_core (fst (free_at_order s nilv sel m (k + 1) c))
             (snd (snd (combine_loop s nilv sel m (k + 1) c)))"
proof -
  let ?e = "buddy k d"
  let ?r = "(fst s1, snd s)"
  have k8: "unat (of_nat k :: u8) = k"
    using km m52 by (intro u8_of_order) simp
  from core1 have t: "page_info_type (fst s1) d = page_type_free"
    and b: "page_info_bin (fst s1) d = of_nat k"
    and n: "page_info_next (fst s1) d = nilv"
    and p: "page_info_prev (fst s1) d = nilv"
    by (simp_all add: info_core_def)
  have go: "\<not> stop_combining (fst s1) (snd s1) m k (buddy k ?e)"
    using km ex by (simp add: stop_combining_def buddy_buddy t b k8 bi1)
  have fp: "bin_first_page sel k (snd s1) = fixnum (d div PAGE_SIZE)"
    by (simp add: bi1 first_page_set_bin len)
  have len1: "k < length (buddies_of sel (snd s1))"
    by (simp add: bi1 len)
  have "remove_buddy s1 nilv sel k d
      = (fst s1, set_bin sel k \<lparr>first_page = nilv,
                                 count = bin_count sel k (snd s1) - fixnum 1\<rparr> (snd s1))"
    using n p fp len1 by (rule remove_single)
  also have "set_bin sel k \<lparr>first_page = nilv, count = bin_count sel k (snd s1) - fixnum 1\<rparr> (snd s1)
      = set_bin sel k \<lparr>first_page = nilv, count = bin_count sel k (snd s)\<rparr> (snd s)"
    by (simp add: bi1 count_set_bin len)
  also have "\<dots> = snd s"
    by (rule set_bin_same) (simp_all add: empty)
  finally have rem: "remove_buddy s1 nilv sel k d = ?r" .
  have loop1: "combine_loop s1 nilv sel m k ?e = combine_loop ?r nilv sel m (k + 1) c"
    using combine_loop_step [OF go] km by (simp add: rem buddy_buddy c)
  have a: "agree_outside d k ?r s"
    using fr1 by (simp add: agree_outside_def)
  have cd: "drop_bit (12 + (k + 1)) c = drop_bit (12 + (k + 1)) d"
    by (auto simp: c drop_bit_eq_bits bit_buddy)
  from agree_combine_loop [OF a le_add1 m52 cd, where nilv = nilv and sel = sel]
  obtain u1 v1 k1 l1 where
    u1: "combine_loop ?r nilv sel m (k + 1) c = (u1, k1, l1)" and
    v1: "combine_loop s nilv sel m (k + 1) c = (v1, k1, l1)" and
    a1: "agree_outside d k u1 v1"
    by blast
  have f2: "free_at_order s1 nilv sel m k ?e = push_free u1 nilv sel k1 l1"
    unfolding free_at_order_def loop1 u1 by simp
  have f: "free_at_order s nilv sel m (k + 1) c = push_free v1 nilv sel k1 l1"
    unfolding free_at_order_def v1 by simp
  have a2: "agree_outside d k (push_free u1 nilv sel k1 l1) (push_free v1 nilv sel k1 l1)"
    using a1 by (rule agree_push_free)
  have blk: "in_block d k q \<or> in_block ?e k q \<Longrightarrow> in_block c (k + 1) q" for q
    using in_block_half [of d k q] cd by (simp add: in_block_def)
  show "agree_outside c (k + 1) s2 (free_at_order s nilv sel m (k + 1) c)"
    unfolding f using sim2 [unfolded f2] a2 blk
    by (fastforce simp: agree_outside_def)
  from a1 have "snd u1 = snd v1" by (simp add: agree_outside_def)
  then have "info_core (fst (push_free u1 nilv sel k1 l1)) l1
      = info_core (fst (push_free v1 nilv sel k1 l1)) l1"
    by (simp add: core_push_free)
  with core2 show "info_core (fst s2) (snd (snd (combine_loop s nilv sel m (k + 1) c)))
         = info_core (fst (free_at_order s nilv sel m (k + 1) c))
             (snd (snd (combine_loop s nilv sel m (k + 1) c)))"
    unfolding f2 f loop1 u1 v1 by simp
qed

lemma agree_outside_refl: "agree_outside c k s s"
  by (simp add: agree_outside_def)

lemma not_free_stops:
  assumes "page_info_type (fst s) p \<noteq> page_type_free"
  shows "stop_combining (fst s) (snd s) m k p"
  using assms by (simp add: stop_combining_def)

text \<open>
  Releasing the pages of an aligned block of order \<open>k\<close> one by one, into bins that are empty
  below \<open>k\<close> and with no page of the block marked free, does what entering the loop at order
  \<open>k\<close> with the block does: the boot information and every page info outside the block are
  the same, and so is the page info of the block that ends at the head of a bin.
\<close>

lemma release_block_simulates:
  assumes "take_bit (12 + k) c = 0" and "k \<le> m" and "m < 52"
    and "select_buddies c = (sel, m)"
    and "m < length (buddies_of sel (snd s))"
    and "\<forall>j<k. bin_first_page sel j (snd s) = nilv"
    and "\<forall>q. in_block c k q \<longrightarrow> page_info_type (fst s) q \<noteq> page_type_free"
    and "\<forall>q\<in>set (block_pages c k). page_exists (snd s) q"
  shows "agree_outside c k (release_block s nilv c k) (free_at_order s nilv sel m k c)
       \<and> info_core (fst (release_block s nilv c k)) (snd (snd (combine_loop s nilv sel m k c)))
         = info_core (fst (free_at_order s nilv sel m k c))
             (snd (snd (combine_loop s nilv sel m k c)))"
  using assms
proof (induction k arbitrary: s c)
  case 0
  then have "release_block s nilv c 0 = free_at_order s nilv sel m 0 c"
    by (simp add: release_block_def free_pages_def block_pages_zero buddy_free_page_def
        free_at_order_def)
  then show ?case by (simp add: agree_outside_refl)
next
  case (Suc k)
  note prems = Suc.prems [unfolded Suc_eq_plus1]
  let ?c' = "buddy k c"
  let ?s1 = "release_block s nilv c k"
  note al = buddy_aligned [OF prems(1)]
  from prems(2) have km: "k < m" and kle: "k \<le> m" by simp_all
  from km prems(3) have k64: "12 + k < 64" by simp
  from km prems(5) have len: "k < length (buddies_of sel (snd s))" by simp
  from prems(6) have empty: "bin_first_page sel k (snd s) = nilv"
    and below: "\<forall>j<k. bin_first_page sel j (snd s) = nilv" by simp_all
  have nf: "page_info_type (fst s) q \<noteq> page_type_free" if "in_block c k q \<or> in_block ?c' k q" for q
    using prems(7) in_block_half [OF that] by simp
  have ex: "page_exists (snd s) q"
    if "q \<in> set (block_pages c k) \<or> q \<in> set (block_pages ?c' k)" for q
    using prems(8) that unfolding block_pages_split [OF al(2)] by auto
  have ih1: "agree_outside c k ?s1 (free_at_order s nilv sel m k c)
       \<and> info_core (fst ?s1) (snd (snd (combine_loop s nilv sel m k c)))
         = info_core (fst (free_at_order s nilv sel m k c))
             (snd (snd (combine_loop s nilv sel m k c)))"
    using al(1) kle prems(3,4,5) below
  proof (rule Suc.IH)
    show "\<forall>q. in_block c k q \<longrightarrow> page_info_type (fst s) q \<noteq> page_type_free"
      using nf by simp
    show "\<forall>q\<in>set (block_pages c k). page_exists (snd s) q"
      using ex by simp
  qed
  have stop: "stop_combining (fst s) (snd s) m k ?c'"
    by (rule not_free_stops) (simp add: nf in_block_self)
  note alone = released_alone [OF conjunct1 [OF ih1] conjunct2 [OF ih1] stop empty len]
  have ih2: "agree_outside ?c' k (release_block ?s1 nilv ?c' k) (free_at_order ?s1 nilv sel m k ?c')
       \<and> info_core (fst (release_block ?s1 nilv ?c' k))
             (snd (snd (combine_loop ?s1 nilv sel m k ?c')))
         = info_core (fst (free_at_order ?s1 nilv sel m k ?c'))
             (snd (snd (combine_loop ?s1 nilv sel m k ?c')))"
    using al(3) kle prems(3)
  proof (rule Suc.IH)
    show "select_buddies ?c' = (sel, m)"
      using prems(4) km al(2) by (rule select_buddies_buddy)
    show "m < length (buddies_of sel (snd ?s1))"
      using prems(5) by (simp add: alone(1))
    show "\<forall>j<k. bin_first_page sel j (snd ?s1) = nilv"
      using below by (simp add: alone(1) first_page_set_bin)
    show "\<forall>q. in_block ?c' k q \<longrightarrow> page_info_type (fst ?s1) q \<noteq> page_type_free"
    proof (intro allI impI)
      fix q assume q: "in_block ?c' k q"
      from in_block_other_half [OF q k64] have "\<not> in_block c k q" .
      with alone(3) have "fst ?s1 (q div PAGE_SIZE) = fst s (q div PAGE_SIZE)" by blast
      then have "page_info_type (fst ?s1) q = page_info_type (fst s) q" by (rule reads_cong)
      with nf q show "page_info_type (fst ?s1) q \<noteq> page_type_free" by simp
    qed
    show "\<forall>q\<in>set (block_pages ?c' k). page_exists (snd ?s1) q"
      using ex by (simp add: alone(1))
  qed
  have c: "c = (if c < ?c' then c else ?c')"
    using buddy_greater [OF al(2) k64] by simp
  have exc: "page_exists (snd s) c"
    using ex block_pages_head by blast
  note second = released_second [OF alone km prems(3) exc len empty conjunct1 [OF ih2]
      conjunct2 [OF ih2] c]
  show ?case
    unfolding Suc_eq_plus1 release_block_split [OF al(2)]
    using second by simp
qed

lemma empty_allocator_bins:
  assumes "empty_allocator st nilv" and "select_buddies c = (sel, m)" and "j \<le> m"
  shows "bin_first_page sel j (snd st) = nilv" and "bin_count sel j (snd st) = 0"
    and "j < length (buddies_of sel (snd st))"
  using assms(1) select_buddies_cases [OF assms(2)] assms(3)
  by (auto simp: empty_allocator_def bins_empty_below_def buddies_of_def
      mezzano_n_buddy_bins_32_bit_def mezzano_n_buddy_bins_64_bit_def log2_4k_page_def)

text \<open>The two buddies of order \<open>k\<close>, released one after the other in either order.\<close>

lemma two_buddies_coalesce:
  assumes ea: "empty_allocator st nilv"
    and al: "take_bit (12 + (k + 1)) c = 0"
    and sel: "select_buddies c = (sel, m)"
    and km: "k < m"
    and ex: "\<forall>q\<in>set (block_pages c (k + 1)). page_exists (snd st) q"
  shows "single_entry sel (k + 1) c nilv st
           (release_block (release_block st nilv c k) nilv (buddy k c) k)"
    and "single_entry sel (k + 1) c nilv st
           (release_block (release_block st nilv (buddy k c) k) nilv c k)"
proof -
  let ?c' = "buddy k c"
  note a = buddy_aligned [OF al]
  from select_buddies_cases [OF sel] have m52: "m < 52" by auto
  from km m52 have k64: "12 + k < 64" by simp
  from km have k1: "k + 1 \<le> m" and kle: "k \<le> m" by simp_all
  note bins = empty_allocator_bins [OF ea sel]
  from ea have nf: "page_info_type (fst st) q \<noteq> page_type_free" for q
    by (simp add: empty_allocator_def)
  have ex': "page_exists (snd st) q"
    if "q \<in> set (block_pages c k) \<or> q \<in> set (block_pages ?c' k)" for q
    using ex that unfolding block_pages_split [OF a(2)] by auto
  have sel': "select_buddies ?c' = (sel, m)"
    using sel km a(2) by (rule select_buddies_buddy)
  have below: "\<forall>j<n. bin_first_page sel j (snd st) = nilv" if "n \<le> m" for n
    using bins(1) that by simp
  have stop1: "stop_combining (fst st) (snd st) m (k + 1) (buddy (k + 1) c)"
    by (rule not_free_stops) (rule nf)
  have g1: "agree_outside c (k + 1) (release_block st nilv c (k + 1))
              (free_at_order st nilv sel m (k + 1) c)
       \<and> info_core (fst (release_block st nilv c (k + 1)))
             (snd (snd (combine_loop st nilv sel m (k + 1) c)))
         = info_core (fst (free_at_order st nilv sel m (k + 1) c))
             (snd (snd (combine_loop st nilv sel m (k + 1) c)))"
    using al k1 m52 sel bins(3) [OF order_refl] below [OF k1] nf ex
    by (intro release_block_simulates) simp_all
  note r1 = released_alone [OF conjunct1 [OF g1] conjunct2 [OF g1] stop1 bins(1) [OF k1]
      bins(3) [OF k1]]
  show "single_entry sel (k + 1) c nilv st
           (release_block (release_block st nilv c k) nilv (buddy k c) k)"
    using r1(1) [unfolded bins(2) [OF k1] release_block_split [OF a(2)]]
      r1(2) [unfolded release_block_split [OF a(2)]]
    by (simp add: single_entry_def)
  let ?s1 = "release_block st nilv ?c' k"
  have g2: "agree_outside ?c' k ?s1 (free_at_order st nilv sel m k ?c')
       \<and> info_core (fst ?s1) (snd (snd (combine_loop st nilv sel m k ?c')))
         = info_core (fst (free_at_order st nilv sel m k ?c'))
             (snd (snd (combine_loop st nilv sel m k ?c')))"
    using a(3) kle m52 sel' bins(3) [OF order_refl] below [OF kle] nf ex'
    by (intro release_block_simulates) simp_all
  have stop2: "stop_combining (fst st) (snd st) m k (buddy k ?c')"
    by (rule not_free_stops) (rule nf)
  note alone = released_alone [OF conjunct1 [OF g2] conjunct2 [OF g2] stop2 bins(1) [OF kle]
      bins(3) [OF kle]]
  have g3: "agree_outside (buddy k ?c') k (release_block ?s1 nilv (buddy k ?c') k)
              (free_at_order ?s1 nilv sel m k (buddy k ?c'))
       \<and> info_core (fst (release_block ?s1 nilv (buddy k ?c') k))
             (snd (snd (combine_loop ?s1 nilv sel m k (buddy k ?c'))))
         = info_core (fst (free_at_order ?s1 nilv sel m k (buddy k ?c')))
             (snd (snd (combine_loop ?s1 nilv sel m k (buddy k ?c'))))"
    unfolding buddy_buddy
    using a(1) kle m52 sel
  proof (rule release_block_simulates)
    show "m < length (buddies_of sel (snd ?s1))"
      using bins(3) [OF order_refl] by (simp add: alone(1))
    show "\<forall>j<k. bin_first_page sel j (snd ?s1) = nilv"
      using below [OF kle] by (simp add: alone(1) first_page_set_bin)
    show "\<forall>q. in_block c k q \<longrightarrow> page_info_type (fst ?s1) q \<noteq> page_type_free"
    proof (intro allI impI)
      fix q assume "in_block c k q"
      then have "in_block (buddy k ?c') k q" by (simp add: buddy_buddy)
      from in_block_other_half [OF this k64] have "\<not> in_block ?c' k q" .
      with alone(3) have "fst ?s1 (q div PAGE_SIZE) = fst st (q div PAGE_SIZE)" by blast
      then have "page_info_type (fst ?s1) q = page_info_type (fst st) q" by (rule reads_cong)
      with nf show "page_info_type (fst ?s1) q \<noteq> page_type_free" by simp
    qed
    show "\<forall>q\<in>set (block_pages c k). page_exists (snd ?s1) q"
      using ex' by (simp add: alone(1))
  qed
  have "\<not> ?c' < c"
    using buddy_greater [OF a(2) k64] by (simp add: not_less less_imp_le)
  then have c: "c = (if ?c' < buddy k ?c' then ?c' else buddy k ?c')"
    by (simp add: buddy_buddy)
  have exc: "page_exists (snd st) ?c'"
    using ex' block_pages_head by blast
  note second = released_second [OF alone km m52 exc bins(3) [OF kle] bins(1) [OF kle]
      conjunct1 [OF g3] conjunct2 [OF g3] c]
  note r2 = released_alone [OF second stop1 bins(1) [OF k1] bins(3) [OF k1]]
  show "single_entry sel (k + 1) c nilv st
           (release_block (release_block st nilv (buddy k c) k) nilv c k)"
    using r2(1) [unfolded bins(2) [OF k1] buddy_buddy] r2(2) [unfolded buddy_buddy]
    by (simp add: single_entry_def)
qed

lemma select_buddies_bins:
  "select_buddies l = (if l < 0x100000000 then (Buddy_Bin_32, 19) else (Buddy_Bin_64, 26))"
  by (simp add: select_buddies_def mezzano_n_buddy_bins_32_bit_def
      mezzano_n_buddy_bins_64_bit_def log2_4k_page_def)

lemma buddy_xor: "buddy j l = l XOR 2 ^ (j + 12)"
  by (simp add: buddy_def log2_4k_page_def push_bit_eq_mult)

lemma stop_combining_iff:
  "stop_combining mmu bi m j p \<longleftrightarrow>
     j = m \<or> \<not> page_exists bi p \<or> page_info_type mmu p \<noteq> page_type_free
     \<or> unat (page_info_bin mmu p) \<noteq> j"
  by (auto simp: stop_combining_def)

lemma example_allocator_empty: "empty_allocator (example_allocator nilv) nilv"
  by (simp add: empty_allocator_def example_allocator_def init_buddy_bins_def
      bins_empty_below_def bin_first_page_def bin_count_def buddies_of_def page_info_type_def
      page_info_flags_def unfixnum_def fixnum_def page_type_free_def)

lemma example_allocator_pages:
  "page_exists (snd (example_allocator nilv)) q \<longleftrightarrow> q < 0x100000000"
  by (simp add: page_exists_def page_exists_from.simps [of _ _ 0]
      page_exists_from.simps [of _ _ 1] example_allocator_def init_buddy_bins_def
      zero_boot_info_def mezzano_max_memory_map_size_def)

lemma example_block_pages: "block_pages 0x4000 2 = [0x4000, 0x5000, 0x6000, 0x7000]"
  by (simp add: block_pages_def PAGE_SIZE_def upt_rec)

section \<open>The buddy allocator: the bins as doubly linked lists\<close>

subsection \<open>Links and pages\<close>

subsection \<open>Links and pages\<close>

lemma page_of_link:
  assumes "take_bit 12 x = 0"
  shows "unfixnum (link_of x) * PAGE_SIZE = x"
proof -
  have "unfixnum (link_of x) * PAGE_SIZE = push_bit 12 (unfixnum (fixnum (drop_bit 12 x)))"
    by (simp add: link_of_def PAGE_SIZE_def push_bit_eq_mult drop_bit_eq_div)
  also have "\<dots> = x"
  proof (rule bit_word_eqI)
    fix n assume n: "n < LENGTH(64)"
    show "bit (push_bit 12 (unfixnum (fixnum (drop_bit 12 x)))) n = bit x n"
    proof (cases "n < 12")
      case True
      with assms show ?thesis
        by (simp add: take_bit_zero_bits bit_push_bit_iff)
    next
      case False
      then have "12 + (n - 12) = n" by simp
      with False n show ?thesis
        by (auto simp: bit_push_bit_iff bit_unfixnum bit_fixnum bit_drop_bit_eq possible_bit_word
            dest: bit_imp_le_length)
    qed
  qed
  finally show ?thesis .
qed

lemma link_of_inject:
  assumes "take_bit 12 x = 0" and "take_bit 12 y = 0" and "link_of x = link_of y"
  shows "x = y"
  using page_of_link [OF assms(1)] page_of_link [OF assms(2)] assms(3) by metis

lemma frame_of_link: "unfixnum (link_of x) * PAGE_SIZE div PAGE_SIZE = x div PAGE_SIZE"
proof -
  have "unfixnum (link_of x) * PAGE_SIZE div PAGE_SIZE
      = drop_bit 12 (push_bit 12 (unfixnum (fixnum (drop_bit 12 x))))"
    by (simp add: link_of_def PAGE_SIZE_def push_bit_eq_mult drop_bit_eq_div)
  also have "\<dots> = drop_bit 12 x"
    by (intro bit_word_eqI)
       (auto simp: bit_push_bit_iff bit_unfixnum bit_fixnum bit_drop_bit_eq possible_bit_word
          dest: bit_imp_le_length)
  finally show ?thesis
    by (simp add: PAGE_SIZE_def drop_bit_eq_div)
qed

lemma same_frame_iff:
  assumes "take_bit 12 x = 0" and "take_bit 12 y = 0"
  shows "x div PAGE_SIZE = y div PAGE_SIZE \<longleftrightarrow> x = y"
proof
  assume "x div PAGE_SIZE = y div PAGE_SIZE"
  then have "link_of x = link_of y" by (simp add: link_of_def)
  with assms show "x = y" by (rule link_of_inject)
qed simp

lemma entry_pageD:
  assumes "entry_page nilv x"
  shows "take_bit 12 x = 0" and "link_of x \<noteq> nilv"
  using assms by (simp_all add: entry_page_def)

lemma link_eq_frame: "link_of x = link_of y \<longleftrightarrow> x div PAGE_SIZE = y div PAGE_SIZE"
proof
  assume "link_of x = link_of y"
  then have "unfixnum (link_of x) * PAGE_SIZE div PAGE_SIZE
      = unfixnum (link_of y) * PAGE_SIZE div PAGE_SIZE"
    by simp
  then show "x div PAGE_SIZE = y div PAGE_SIZE"
    by (simp only: frame_of_link)
qed (simp add: link_of_def)

lemma link_eq_page:
  assumes "take_bit 12 x = 0" and "take_bit 12 y = 0"
  shows "link_of x = link_of y \<longleftrightarrow> x = y"
  using assms by (auto dest: link_of_inject)

subsection \<open>Doubly linked lists in the page infos\<close>

lemma dll_cong:
  assumes "\<forall>x\<in>set xs. page_info_next mmu' x = page_info_next mmu x
             \<and> page_info_prev mmu' x = page_info_prev mmu x"
  shows "dll mmu' nilv pv h xs = dll mmu nilv pv h xs"
  using assms by (induction xs arbitrary: pv h) simp_all

lemma dll_next_link:
  assumes "dll mmu nilv pv h xs" and "p \<in> set xs"
  shows "page_info_next mmu p = nilv \<or> page_info_next mmu p \<in> link_of ` set xs"
  using assms
proof (induction xs arbitrary: pv h)
  case Nil
  then show ?case by simp
next
  case (Cons x xs)
  show ?case
  proof (cases "p = x")
    case True
    with Cons.prems(1) show ?thesis
      by (cases xs) auto
  next
    case False
    with Cons.prems have "dll mmu nilv (link_of x) (page_info_next mmu x) xs" and "p \<in> set xs"
      by simp_all
    from Cons.IH [OF this] show ?thesis by auto
  qed
qed

lemma dll_prev_link:
  assumes "dll mmu nilv pv h xs" and "p \<in> set xs"
  shows "page_info_prev mmu p = pv \<or> page_info_prev mmu p \<in> link_of ` set xs"
  using assms
proof (induction xs arbitrary: pv h)
  case Nil
  then show ?case by simp
next
  case (Cons x xs)
  show ?case
  proof (cases "p = x")
    case True
    with Cons.prems(1) show ?thesis by simp
  next
    case False
    with Cons.prems have "dll mmu nilv (link_of x) (page_info_next mmu x) xs" and "p \<in> set xs"
      by simp_all
    from Cons.IH [OF this] show ?thesis by auto
  qed
qed

lemma dll_head:
  assumes "dll mmu nilv pv h xs" and "\<forall>x\<in>set xs. entry_page nilv x"
  shows "h = nilv \<longleftrightarrow> xs = []"
  using assms by (cases xs) (auto simp: entry_page_def)

subsection \<open>Unlinking a page\<close>

text \<open>
  Taking \<open>p\<close> out of a list: the successor of \<open>p\<close> gets the predecessor of \<open>p\<close> as \<open>prev\<close>, the
  predecessor gets the successor as \<open>next\<close>, and the list is the old one without \<open>p\<close>.
\<close>

lemma dll_remove:
  assumes "dll mmu nilv pv h xs" and "p \<in> set xs" and "distinct xs"
    and "\<forall>x\<in>set xs. entry_page nilv x"
    and "pv = nilv \<or> (\<exists>y. pv = link_of y \<and> take_bit 12 y = 0 \<and> y \<notin> set xs)"
    and "\<forall>q. take_bit 12 q = 0 \<longrightarrow>
           page_info_prev mmu' q
             = (if page_info_next mmu p \<noteq> nilv \<and> link_of q = page_info_next mmu p
                then page_info_prev mmu p else page_info_prev mmu q)"
    and "\<forall>q. take_bit 12 q = 0 \<longrightarrow>
           page_info_next mmu' q
             = (if page_info_prev mmu p \<noteq> nilv \<and> link_of q = page_info_prev mmu p
                then page_info_next mmu p else page_info_next mmu q)"
  shows "dll mmu' nilv pv (if h = link_of p then page_info_next mmu p else h) (remove1 p xs)"
  using assms(1-5)
proof (induction xs arbitrary: pv h)
  case Nil
  then show ?case by simp
next
  case (Cons x xs)
  let ?n = "page_info_next mmu p"
  let ?pr = "page_info_prev mmu p"
  note rp = assms(6) [rule_format]
  note rn = assms(7) [rule_format]
  from Cons.prems(4) have ex: "entry_page nilv x" and exs: "\<forall>y\<in>set xs. entry_page nilv y"
    by simp_all
  note ax = entry_pageD [OF ex]
  have al: "take_bit 12 y = 0" if "y \<in> set xs" for y
    using exs that by (simp add: entry_page_def)
  from Cons.prems(1) have h: "h = link_of x" and px: "page_info_prev mmu x = pv"
    and tl: "dll mmu nilv (link_of x) (page_info_next mmu x) xs"
    by simp_all
  from Cons.prems(3) have xn: "x \<notin> set xs" and dxs: "distinct xs"
    by simp_all
  have pv_other: "pv \<noteq> link_of y" if "y \<in> set (x # xs)" for y
  proof
    assume e: "pv = link_of y"
    from that Cons.prems(4) have ey: "entry_page nilv y" by blast
    with e have "pv \<noteq> nilv" by (simp add: entry_page_def)
    with Cons.prems(5) obtain w where w: "pv = link_of w" "take_bit 12 w = 0" "w \<notin> set (x # xs)"
      by blast
    from link_of_inject [OF w(2) entry_pageD(1) [OF ey]] w(1) e have "w = y" by simp
    with w(3) that show False by simp
  qed
  show ?case
  proof (cases "p = x")
    case True
    then have n: "?n = page_info_next mmu x" and pr: "?pr = pv"
      by (simp_all add: px)
    have "dll mmu' nilv pv ?n xs"
    proof (cases xs)
      case Nil
      with tl show ?thesis by (simp add: n)
    next
      case (Cons z zs)
      with tl have nz: "page_info_next mmu x = link_of z"
        and zs: "dll mmu nilv (link_of z) (page_info_next mmu z) zs"
        by simp_all
      from Cons exs have ez: "entry_page nilv z" by simp
      note az = entry_pageD [OF ez]
      have zin: "z \<in> set (x # xs)" by (simp add: Cons)
      have "page_info_prev mmu' z = pv"
        using rp [OF az(1)] az(2) by (simp add: n nz pr)
      moreover have "page_info_next mmu' z = page_info_next mmu z"
        using rn [OF az(1)] pv_other [OF zin] by (simp add: pr)
      moreover have "dll mmu' nilv (link_of z) (page_info_next mmu z) zs
          = dll mmu nilv (link_of z) (page_info_next mmu z) zs"
      proof (rule dll_cong, intro ballI conjI)
        fix q assume q: "q \<in> set zs"
        then have qin: "q \<in> set (x # xs)" and aq: "take_bit 12 q = 0"
          using al [of q] by (simp_all add: Cons)
        from q dxs Cons have "q \<noteq> z" by auto
        with aq az(1) have "link_of q \<noteq> link_of z" by (simp add: link_eq_page)
        then show "page_info_prev mmu' q = page_info_prev mmu q"
          using rp [OF aq] by (simp add: n nz)
        show "page_info_next mmu' q = page_info_next mmu q"
          using rn [OF aq] pv_other [OF qin] by (simp add: pr)
      qed
      ultimately show ?thesis
        using zs by (simp add: Cons n nz)
    qed
    with True show ?thesis by (simp add: h)
  next
    case False
    with Cons.prems(2) have pin: "p \<in> set xs" by simp
    from False ax(1) al [OF pin] have lp: "link_of x \<noteq> link_of p"
      by (simp add: link_eq_page)
    have nl: "?n = nilv \<or> ?n \<in> link_of ` set xs"
      using tl pin by (rule dll_next_link)
    have "link_of x \<noteq> ?n \<or> ?n = nilv"
    proof (rule disjCI)
      assume "?n \<noteq> nilv"
      with nl obtain z where "z \<in> set xs" and "?n = link_of z" by blast
      with xn ax(1) al [of z] show "link_of x \<noteq> ?n" by (auto simp: link_eq_page)
    qed
    then have p': "page_info_prev mmu' x = pv"
      using rp [OF ax(1)] by (auto simp: px)
    have "(?pr \<noteq> nilv \<and> link_of x = ?pr) \<longleftrightarrow> page_info_next mmu x = link_of p"
    proof (cases xs)
      case Nil
      with pin show ?thesis by simp
    next
      case (Cons y ys)
      with tl have ny: "page_info_next mmu x = link_of y" and py: "page_info_prev mmu y = link_of x"
        and ys: "dll mmu nilv (link_of y) (page_info_next mmu y) ys"
        by simp_all
      show ?thesis
      proof (cases "p = y")
        case True
        then show ?thesis using ax(2) by (simp add: ny py)
      next
        case False
        with pin Cons have "p \<in> set ys" by simp
        from dll_prev_link [OF ys this] have "?pr = link_of y \<or> ?pr \<in> link_of ` set ys" .
        then obtain w where "w \<in> set xs" and "?pr = link_of w"
          by (auto simp: Cons)
        with xn ax(1) al [of w] have "link_of x \<noteq> ?pr" by (auto simp: link_eq_page)
        moreover from False al [OF pin] al [of y] have "link_of y \<noteq> link_of p"
          by (simp add: link_eq_page Cons)
        ultimately show ?thesis by (simp add: ny)
      qed
    qed
    then have n': "page_info_next mmu' x
        = (if page_info_next mmu x = link_of p then ?n else page_info_next mmu x)"
      using rn [OF ax(1)] by auto
    have "dll mmu' nilv (link_of x)
            (if page_info_next mmu x = link_of p then ?n else page_info_next mmu x) (remove1 p xs)"
      using tl pin dxs exs
    proof (rule Cons.IH)
      show "link_of x = nilv \<or> (\<exists>y. link_of x = link_of y \<and> take_bit 12 y = 0 \<and> y \<notin> set xs)"
        using ax(1) xn by blast
    qed
    with False lp show ?thesis
      by (simp add: h p' n')
  qed
qed

text \<open>What \<^verbatim>\<open>remove_buddy\<close> leaves in the page infos and in the bins.\<close>

lemma reads_remove_buddy:
  "page_info_type (fst (remove_buddy u nilv sel k p)) q = page_info_type (fst u) q"
  "page_info_bin (fst (remove_buddy u nilv sel k p)) q = page_info_bin (fst u) q"
  "page_info_prev (fst (remove_buddy u nilv sel k p)) q
     = (if page_info_next (fst u) p \<noteq> nilv
          \<and> (unfixnum (page_info_next (fst u) p) * PAGE_SIZE) div PAGE_SIZE = q div PAGE_SIZE
        then page_info_prev (fst u) p else page_info_prev (fst u) q)"
  "page_info_next (fst (remove_buddy u nilv sel k p)) q
     = (if page_info_prev (fst u) p \<noteq> nilv
          \<and> (unfixnum (page_info_prev (fst u) p) * PAGE_SIZE) div PAGE_SIZE = q div PAGE_SIZE
        then page_info_next (fst u) p else page_info_next (fst u) q)"
  by (cases u; simp add: remove_buddy_def Let_def)+

lemma snd_remove_buddy:
  assumes "k < length (buddies_of sel (snd u))"
  shows "snd (remove_buddy u nilv sel k p)
     = set_bin sel k
         \<lparr>first_page = (if bin_first_page sel k (snd u) = link_of p
                         then page_info_next (fst u) p else bin_first_page sel k (snd u)),
          count = bin_count sel k (snd u) - fixnum 1\<rparr> (snd u)"
proof -
  obtain mmu bi where u: "u = (mmu, bi)" by (cases u)
  from assms have k: "k < length (buddies_of sel bi)" by (simp add: u)
  have r: "buddies_of sel (set_bin sel k b bi) ! k = b" for b
    using k by (cases sel) (simp_all add: buddies_of_def set_bin_def)
  show ?thesis
    using k
    by (simp add: u remove_buddy_def Let_def set_bin_first_page_def set_bin_count_def
        link_of_def r bin_count_def bin_first_page_def bin_update_all)
      (cases "buddies_of sel bi ! k"; simp)
qed

lemma fixnum_pred: "fixnum (of_nat (Suc n)) - fixnum 1 = fixnum (of_nat n)"
  by (simp add: fixnum_def)

lemma fixnum_succ: "fixnum (of_nat n) + fixnum 1 = fixnum (of_nat (Suc n))"
  by (simp add: fixnum_def)

lemma link_frame: "link_of q = link_of z \<longleftrightarrow> unfixnum (link_of z) * PAGE_SIZE div PAGE_SIZE = q div PAGE_SIZE"
  unfolding frame_of_link link_eq_frame by auto

text \<open>The bin that loses \<open>p\<close>.\<close>

lemma bin_holds_remove_buddy:
  assumes h: "bin_holds u nilv sel k xs" and p: "p \<in> set xs" and d: "distinct xs"
    and e: "\<forall>x\<in>set xs. entry_page nilv x"
    and k: "k < length (buddies_of sel (snd u))"
  shows "bin_holds (remove_buddy u nilv sel k p) nilv sel k (remove1 p xs)"
proof -
  let ?u' = "remove_buddy u nilv sel k p"
  let ?n = "page_info_next (fst u) p"
  let ?pr = "page_info_prev (fst u) p"
  from h have l: "dll (fst u) nilv nilv (bin_first_page sel k (snd u)) xs"
    and c: "bin_count sel k (snd u) = fixnum (of_nat (length xs))"
    by (simp_all add: bin_holds_def)
  have n: "?n \<noteq> nilv \<Longrightarrow> \<exists>z. ?n = link_of z"
    using dll_next_link [OF l p] by blast
  have pr: "?pr \<noteq> nilv \<Longrightarrow> \<exists>z. ?pr = link_of z"
    using dll_prev_link [OF l p] by blast
  have rp: "page_info_prev (fst ?u') q
      = (if ?n \<noteq> nilv \<and> link_of q = ?n then ?pr else page_info_prev (fst u) q)" for q
    using n by (auto simp: reads_remove_buddy link_frame)
  have rn: "page_info_next (fst ?u') q
      = (if ?pr \<noteq> nilv \<and> link_of q = ?pr then ?n else page_info_next (fst u) q)" for q
    using pr by (auto simp: reads_remove_buddy link_frame)
  have "dll (fst ?u') nilv nilv
          (if bin_first_page sel k (snd u) = link_of p then ?n else bin_first_page sel k (snd u))
          (remove1 p xs)"
    using l p d e by (rule dll_remove) (simp_all add: rp rn)
  moreover from p have "0 < length xs"
    by (rule length_pos_if_in_set)
  with p have "length xs = Suc (length (remove1 p xs))"
    by (simp add: length_remove1)
  then have "fixnum (of_nat (length xs)) - fixnum 1 = fixnum (of_nat (length (remove1 p xs)))"
    using fixnum_pred [of "length (remove1 p xs)"] by metis
  ultimately show ?thesis
    using k c by (simp add: bin_holds_def snd_remove_buddy first_page_set_bin count_set_bin)
qed

text \<open>A bin whose entries are not neighbours of \<open>p\<close>.\<close>

lemma bin_holds_remove_other:
  assumes h: "bin_holds u nilv sel j ys" and hk: "bin_holds u nilv sel k xs" and p: "p \<in> set xs"
    and e: "\<forall>x\<in>set xs. entry_page nilv x" and e': "\<forall>y\<in>set ys. entry_page nilv y"
    and dj: "set xs \<inter> set ys = {}" and jk: "j \<noteq> k"
  shows "bin_holds (remove_buddy u nilv sel k p) nilv sel j ys"
proof -
  let ?u' = "remove_buddy u nilv sel k p"
  let ?n = "page_info_next (fst u) p"
  let ?pr = "page_info_prev (fst u) p"
  from hk have l: "dll (fst u) nilv nilv (bin_first_page sel k (snd u)) xs"
    by (simp add: bin_holds_def)
  have other: "link_of y \<noteq> link_of z" if "y \<in> set ys" and "z \<in> set xs" for y z
  proof -
    from that dj have "y \<noteq> z" by auto
    moreover from that e e' have "take_bit 12 y = 0" and "take_bit 12 z = 0"
      by (auto simp: entry_page_def)
    ultimately show ?thesis by (simp add: link_eq_page)
  qed
  have n: "?n = nilv \<or> (\<exists>z\<in>set xs. ?n = link_of z)"
    using dll_next_link [OF l p] by blast
  have pr: "?pr = nilv \<or> (\<exists>z\<in>set xs. ?pr = link_of z)"
    using dll_prev_link [OF l p] by blast
  have "dll (fst ?u') nilv nilv (bin_first_page sel j (snd u)) ys
      = dll (fst u) nilv nilv (bin_first_page sel j (snd u)) ys"
  proof (rule dll_cong, intro ballI conjI)
    fix y assume y: "y \<in> set ys"
    show "page_info_next (fst ?u') y = page_info_next (fst u) y"
      using pr other [OF y] by (auto simp: reads_remove_buddy link_frame [symmetric])
    show "page_info_prev (fst ?u') y = page_info_prev (fst u) y"
      using n other [OF y] by (auto simp: reads_remove_buddy link_frame [symmetric])
  qed
  moreover have "snd ?u' = snd u \<or> (\<exists>b. snd ?u' = set_bin sel k b (snd u))"
    by (cases "k < length (buddies_of sel (snd u))")
       (auto simp: snd_remove_buddy remove_buddy_def Let_def split_beta set_bin_first_page_def
          set_bin_count_def set_bin_def not_less split: bin_array.split)
  ultimately show ?thesis
    using h jk by (auto simp: bin_holds_def first_page_set_bin count_set_bin)
qed

subsection \<open>Linking a page at the head\<close>

text \<open>What \<^verbatim>\<open>push_free\<close> leaves in the page infos.\<close>

lemma reads_push_free:
  "page_info_type (fst (push_free u nilv sel k l)) q
     = (if l div PAGE_SIZE = q div PAGE_SIZE then page_type_free else page_info_type (fst u) q)"
  "page_info_bin (fst (push_free u nilv sel k l)) q
     = (if l div PAGE_SIZE = q div PAGE_SIZE then of_nat k else page_info_bin (fst u) q)"
  "page_info_next (fst (push_free u nilv sel k l)) q
     = (if l div PAGE_SIZE = q div PAGE_SIZE then bin_first_page sel k (snd u)
        else page_info_next (fst u) q)"
  "page_info_prev (fst (push_free u nilv sel k l)) q
     = (if bin_first_page sel k (snd u) \<noteq> nilv
          \<and> (unfixnum (bin_first_page sel k (snd u)) * PAGE_SIZE) div PAGE_SIZE = q div PAGE_SIZE
        then link_of l
        else if l div PAGE_SIZE = q div PAGE_SIZE then nilv else page_info_prev (fst u) q)"
  by (cases u; simp add: push_free_def Let_def free_is_byte link_of_def)+

lemma reads_push_free_other:
  assumes "link_of q \<noteq> link_of l"
    and "bin_first_page sel k (snd u) = nilv
         \<or> (\<exists>x. bin_first_page sel k (snd u) = link_of x \<and> link_of q \<noteq> link_of x)"
  shows "page_info_next (fst (push_free u nilv sel k l)) q = page_info_next (fst u) q"
    and "page_info_prev (fst (push_free u nilv sel k l)) q = page_info_prev (fst u) q"
  using assms by (auto simp: reads_push_free link_frame [symmetric] link_eq_frame)

text \<open>The bin that gains \<open>l\<close>, and the other bins.\<close>

lemma bin_holds_push_free:
  assumes h: "bin_holds u nilv sel k xs" and l: "l \<notin> set xs" and d: "distinct xs"
    and e: "\<forall>x\<in>set xs. entry_page nilv x" and el: "take_bit 12 l = 0"
    and k: "k < length (buddies_of sel (snd u))"
  shows "bin_holds (push_free u nilv sel k l) nilv sel k (l # xs)"
proof -
  let ?u' = "push_free u nilv sel k l"
  let ?h = "bin_first_page sel k (snd u)"
  from h have dl: "dll (fst u) nilv nilv ?h xs"
    and c: "bin_count sel k (snd u) = fixnum (of_nat (length xs))"
    by (simp_all add: bin_holds_def)
  have al: "take_bit 12 x = 0" if "x \<in> set xs" for x
    using e that by (simp add: entry_page_def)
  have nl: "link_of x \<noteq> link_of l" if "x \<in> set xs" for x
    using that l al [OF that] el by (auto simp: link_eq_page)
  have "page_info_prev (fst ?u') l = nilv \<and> dll (fst ?u') nilv (link_of l) ?h xs"
  proof (cases xs)
    case Nil
    with dl show ?thesis by (simp add: reads_push_free)
  next
    case (Cons x xs')
    with dl have hx: "?h = link_of x" and tl: "dll (fst u) nilv (link_of x) (page_info_next (fst u) x) xs'"
      by simp_all
    from Cons e have ex: "entry_page nilv x" by simp
    from Cons have xin: "x \<in> set xs" by simp
    have p1: "page_info_prev (fst ?u') l = nilv"
      using nl [OF xin] by (simp add: reads_push_free hx link_frame [symmetric])
    have p2: "page_info_prev (fst ?u') x = link_of l"
      using entry_pageD(2) [OF ex] by (simp add: reads_push_free hx link_frame [symmetric])
    have p3: "page_info_next (fst ?u') x = page_info_next (fst u) x"
      using nl [OF xin] by (simp add: reads_push_free link_eq_frame)
    have "dll (fst ?u') nilv (link_of x) (page_info_next (fst u) x) xs'
        = dll (fst u) nilv (link_of x) (page_info_next (fst u) x) xs'"
    proof (rule dll_cong, intro ballI)
      fix y assume y: "y \<in> set xs'"
      with Cons d have "y \<noteq> x" and yin: "y \<in> set xs" by auto
      with al [of y] al [OF xin] have "link_of y \<noteq> link_of x" by (simp add: link_eq_page)
      with nl [OF yin] hx
      show "page_info_next (fst ?u') y = page_info_next (fst u) y
          \<and> page_info_prev (fst ?u') y = page_info_prev (fst u) y"
        by (intro conjI reads_push_free_other) auto
    qed
    with tl p1 p2 p3 show ?thesis by (simp add: Cons hx)
  qed
  moreover have "page_info_next (fst ?u') l = ?h"
    by (simp add: reads_push_free)
  ultimately show ?thesis
    using k c
    by (simp add: bin_holds_def snd_push_free first_page_set_bin count_set_bin fixnum_succ
        link_of_def [symmetric])
qed

lemma bin_holds_push_other:
  assumes h: "bin_holds u nilv sel j ys" and hk: "bin_holds u nilv sel k xs"
    and l: "l \<notin> set ys" and el: "take_bit 12 l = 0"
    and e: "\<forall>x\<in>set xs. entry_page nilv x" and e': "\<forall>y\<in>set ys. entry_page nilv y"
    and dj: "set xs \<inter> set ys = {}" and jk: "j \<noteq> k"
    and k: "k < length (buddies_of sel (snd u))"
  shows "bin_holds (push_free u nilv sel k l) nilv sel j ys"
proof -
  let ?u' = "push_free u nilv sel k l"
  let ?h = "bin_first_page sel k (snd u)"
  from hk have dl: "dll (fst u) nilv nilv ?h xs"
    by (simp add: bin_holds_def)
  have hd: "?h = nilv \<or> (\<exists>x\<in>set xs. ?h = link_of x)"
    using dl by (cases xs) simp_all
  have "dll (fst ?u') nilv nilv (bin_first_page sel j (snd u)) ys
      = dll (fst u) nilv nilv (bin_first_page sel j (snd u)) ys"
  proof (rule dll_cong, intro ballI)
    fix y assume y: "y \<in> set ys"
    with e' have ay: "take_bit 12 y = 0" by (simp add: entry_page_def)
    from y l ay el have 1: "link_of y \<noteq> link_of l" by (auto simp: link_eq_page)
    have 2: "?h = nilv \<or> (\<exists>x. ?h = link_of x \<and> link_of y \<noteq> link_of x)"
    proof (cases "?h = nilv")
      case True
      then show ?thesis by simp
    next
      case False
      with hd obtain x where x: "x \<in> set xs" "?h = link_of x" by blast
      with dj y have "y \<noteq> x" by auto
      moreover from x e have "take_bit 12 x = 0" by (simp add: entry_page_def)
      ultimately have "link_of y \<noteq> link_of x" using ay by (simp add: link_eq_page)
      with x show ?thesis by blast
    qed
    from 1 2 show "page_info_next (fst ?u') y = page_info_next (fst u) y
          \<and> page_info_prev (fst ?u') y = page_info_prev (fst u) y"
      by (intro conjI reads_push_free_other)
  qed
  with h jk k show ?thesis
    by (simp add: bin_holds_def snd_push_free first_page_set_bin count_set_bin)
qed

text \<open>The two steps of the release carry the representation along.\<close>

lemma page_exists_remove_buddy:
  "page_exists (snd (remove_buddy u nilv sel k p)) = page_exists (snd u)"
  by (rule ext)
     (simp add: remove_buddy_def Let_def split_beta set_bin_first_page_def set_bin_count_def)

lemma page_exists_push_free:
  "page_exists (snd (push_free u nilv sel k l)) = page_exists (snd u)"
  by (rule ext)
     (simp add: push_free_def Let_def split_beta set_bin_first_page_def set_bin_count_def)

lemma length_remove_buddy:
  "length (buddies_of sel (snd (remove_buddy u nilv sel k p))) = length (buddies_of sel (snd u))"
  by (simp add: remove_buddy_def Let_def split_beta set_bin_first_page_def set_bin_count_def)

lemma length_push_free:
  "length (buddies_of sel (snd (push_free u nilv sel k l))) = length (buddies_of sel (snd u))"
  by (simp add: push_free_def Let_def split_beta set_bin_first_page_def set_bin_count_def)

lemma represents_remove_buddy:
  assumes rep: "represents u nilv sel m S" and wf: "well_formed S in_map nilv m"
    and k: "k \<le> m" and p: "p \<in> set (lists S k)"
  shows "represents (remove_buddy u nilv sel k p) nilv sel m
           (S\<lparr>lists := (lists S)(k := remove1 p (lists S k))\<rparr>)"
    and "well_formed (S\<lparr>lists := (lists S)(k := remove1 p (lists S k))\<rparr>) in_map nilv m"
proof -
  from rep have len: "m < length (buddies_of sel (snd u))"
    and holds: "\<And>j. j \<le> m \<Longrightarrow> bin_holds u nilv sel j (lists S j)"
    and tg: "\<And>q. take_bit 12 q = 0 \<Longrightarrow> page_exists (snd u) q \<Longrightarrow>
        tags S q = (page_info_type (fst u) q, unat (page_info_bin (fst u) q))"
    by (simp_all add: represents_def)
  from wf have d: "\<And>j. j \<le> m \<Longrightarrow> distinct (lists S j)"
    and dj: "\<And>i j. i \<le> m \<Longrightarrow> j \<le> m \<Longrightarrow> i \<noteq> j \<Longrightarrow> set (lists S i) \<inter> set (lists S j) = {}"
    and e: "\<And>j. j \<le> m \<Longrightarrow> \<forall>x\<in>set (lists S j). entry_page nilv x"
    and im: "\<And>j x. j \<le> m \<Longrightarrow> x \<in> set (lists S j) \<Longrightarrow> in_map x"
    by (simp_all add: well_formed_def)
  from k len have klen: "k < length (buddies_of sel (snd u))" by simp
  have "bin_holds (remove_buddy u nilv sel k p) nilv sel j
          (if j = k then remove1 p (lists S k) else lists S j)" if j: "j \<le> m" for j
  proof (cases "j = k")
    case True
    with bin_holds_remove_buddy [OF holds [OF k] p d [OF k] e [OF k] klen] show ?thesis by simp
  next
    case False
    with bin_holds_remove_other [OF holds [OF j] holds [OF k] p e [OF k] e [OF j] dj [OF k j]]
    show ?thesis by auto
  qed
  with len tg show "represents (remove_buddy u nilv sel k p) nilv sel m
           (S\<lparr>lists := (lists S)(k := remove1 p (lists S k))\<rparr>)"
    by (simp add: represents_def length_remove_buddy page_exists_remove_buddy reads_remove_buddy)
  have sub: "set (remove1 p (lists S k)) \<subseteq> set (lists S k)"
    by (rule set_remove1_subset)
  show "well_formed (S\<lparr>lists := (lists S)(k := remove1 p (lists S k))\<rparr>) in_map nilv m"
    unfolding well_formed_def
  proof (intro conjI allI impI ballI)
    fix j assume "j \<le> m"
    then show "distinct (lists (S\<lparr>lists := (lists S)(k := remove1 p (lists S k))\<rparr>) j)"
      using d by simp
  next
    fix i j assume "i \<le> m" "j \<le> m" "i \<noteq> j"
    then show "set (lists (S\<lparr>lists := (lists S)(k := remove1 p (lists S k))\<rparr>) i)
        \<inter> set (lists (S\<lparr>lists := (lists S)(k := remove1 p (lists S k))\<rparr>) j) = {}"
      using dj [of i j] dj [of k j] dj [of i k] sub k by auto
  next
    fix j x assume "j \<le> m" "x \<in> set (lists (S\<lparr>lists := (lists S)(k := remove1 p (lists S k))\<rparr>) j)"
    then have "x \<in> set (lists S j)" using sub by (auto split: if_splits)
    with \<open>j \<le> m\<close> e im show "entry_page nilv x" and "in_map x" by auto
  qed
qed

lemma represents_push_free:
  assumes rep: "represents u nilv sel m S" and wf: "well_formed S in_map nilv m"
    and k: "k \<le> m" and m: "m < 256" and el: "entry_page nilv l" and il: "in_map l"
    and nl: "\<forall>j\<le>m. l \<notin> set (lists S j)"
  shows "represents (push_free u nilv sel k l) nilv sel m
           (S\<lparr>lists := (lists S)(k := l # lists S k), tags := (tags S)(l := (page_type_free, k))\<rparr>)"
    and "well_formed (S\<lparr>lists := (lists S)(k := l # lists S k),
                        tags := (tags S)(l := (page_type_free, k))\<rparr>) in_map nilv m"
proof -
  let ?S' = "S\<lparr>lists := (lists S)(k := l # lists S k), tags := (tags S)(l := (page_type_free, k))\<rparr>"
  from rep have len: "m < length (buddies_of sel (snd u))"
    and holds: "\<And>j. j \<le> m \<Longrightarrow> bin_holds u nilv sel j (lists S j)"
    and tg: "\<And>q. take_bit 12 q = 0 \<Longrightarrow> page_exists (snd u) q \<Longrightarrow>
        tags S q = (page_info_type (fst u) q, unat (page_info_bin (fst u) q))"
    by (simp_all add: represents_def)
  from wf have d: "\<And>j. j \<le> m \<Longrightarrow> distinct (lists S j)"
    and dj: "\<And>i j. i \<le> m \<Longrightarrow> j \<le> m \<Longrightarrow> i \<noteq> j \<Longrightarrow> set (lists S i) \<inter> set (lists S j) = {}"
    and e: "\<And>j. j \<le> m \<Longrightarrow> \<forall>x\<in>set (lists S j). entry_page nilv x"
    and im: "\<And>j x. j \<le> m \<Longrightarrow> x \<in> set (lists S j) \<Longrightarrow> in_map x"
    by (simp_all add: well_formed_def)
  note al = entry_pageD(1) [OF el]
  from k len have klen: "k < length (buddies_of sel (snd u))" by simp
  from k m have k8: "unat (of_nat k :: u8) = k" by (intro u8_of_order) simp
  have "bin_holds (push_free u nilv sel k l) nilv sel j
          (if j = k then l # lists S k else lists S j)" if j: "j \<le> m" for j
  proof (cases "j = k")
    case True
    from nl k have "l \<notin> set (lists S k)" by simp
    from bin_holds_push_free [OF holds [OF k] this d [OF k] e [OF k] al klen] True
    show ?thesis by simp
  next
    case False
    from nl j have "l \<notin> set (lists S j)" by simp
    from bin_holds_push_other [OF holds [OF j] holds [OF k] this al e [OF k] e [OF j]
        dj [OF k j] False klen] False
    show ?thesis by auto
  qed
  moreover have "tags ?S' q = (page_info_type (fst (push_free u nilv sel k l)) q,
       unat (page_info_bin (fst (push_free u nilv sel k l)) q))"
    if "take_bit 12 q = 0" and "page_exists (snd u) q" for q
    using tg [OF that] same_frame_iff [OF al that(1)] by (auto simp: reads_push_free k8)
  ultimately show "represents (push_free u nilv sel k l) nilv sel m ?S'"
    using len by (simp add: represents_def length_push_free page_exists_push_free)
  show "well_formed ?S' in_map nilv m"
    unfolding well_formed_def
  proof (intro conjI allI impI ballI)
    fix j assume "j \<le> m"
    then show "distinct (lists ?S' j)"
      using d nl by simp
  next
    fix i j assume "i \<le> m" "j \<le> m" "i \<noteq> j"
    then show "set (lists ?S' i) \<inter> set (lists ?S' j) = {}"
      using dj [of i j] nl by auto
  next
    fix j x assume "j \<le> m" "x \<in> set (lists ?S' j)"
    then have "x = l \<or> x \<in> set (lists S j)" by (auto split: if_splits)
    with \<open>j \<le> m\<close> e im el il show "entry_page nilv x" and "in_map x" by auto
  qed
qed

subsection \<open>The loop against the loop of the specification\<close>

lemma block_head_aligned:
  assumes "take_bit (12 + k) l = 0"
  shows "block_head k l = l"
  using bits_ident [of "12 + k" l] assms by (simp add: block_head_def)

lemma lower_buddy_aligned:
  assumes "take_bit (12 + k) l = 0" and "12 + k < 64"
  shows "take_bit (12 + (k + 1)) (if buddy k l < l then buddy k l else l) = 0"
  unfolding take_bit_zero_bits
proof (intro allI impI)
  fix i assume "i < 12 + (k + 1)"
  then consider "i < 12 + k" | "i = 12 + k" by arith
  then show "\<not> bit (if buddy k l < l then buddy k l else l) i"
  proof cases
    case 1
    with assms(1) show ?thesis by (simp add: take_bit_zero_bits bit_buddy)
  next
    case 2
    with buddy_less_iff [OF assms(2), of l] show ?thesis by (simp add: bit_buddy)
  qed
qed

lemma block_head_lower_buddy:
  assumes "k < j"
  shows "block_head j (if buddy k l < l then buddy k l else l) = block_head j l"
proof -
  have "drop_bit (12 + j) (buddy k l) = drop_bit (12 + j) l"
    using assms by (auto simp: drop_bit_eq_bits bit_buddy)
  then show ?thesis by (simp add: block_head_def)
qed

lemma buddy_page_aligned:
  assumes "take_bit 12 l = 0"
  shows "take_bit 12 (buddy k l) = 0"
  using assms by (auto simp: take_bit_zero_bits bit_buddy)

lemma spec_combine_stop:
  assumes "m \<le> k \<or> \<not> in_map (buddy k l) \<or> fst (tags S (buddy k l)) \<noteq> page_type_free
           \<or> snd (tags S (buddy k l)) \<noteq> k"
  shows "spec_combine S in_map m k l = (S, k, l)"
  using assms by (subst spec_combine.simps) (auto simp: Let_def buddy_xor)

lemma spec_combine_step:
  assumes "k < m" and "in_map (buddy k l)" and "tags S (buddy k l) = (page_type_free, k)"
  shows "spec_combine S in_map m k l
     = spec_combine (S\<lparr>lists := (lists S)(k := remove1 (buddy k l) (lists S k))\<rparr>) in_map m (k + 1)
         (if buddy k l < l then buddy k l else l)"
proof -
  have "min l (buddy k l) = (if buddy k l < l then buddy k l else l)"
    by (auto simp: min_def)
  with assms show ?thesis
    by (subst spec_combine.simps) (simp add: Let_def buddy_xor)
qed

lemma combine_loop_refines:
  assumes "represents u nilv sel m S" and "well_formed S in_map nilv m"
    and "page_exists (snd u) = in_map" and "k \<le> m" and "m < 52"
    and "entry_page nilv l" and "in_map l" and "\<forall>j\<le>m. l \<notin> set (lists S j)"
    and "take_bit (12 + k) l = 0"
    and "\<forall>j. k \<le> j \<and> j < m \<longrightarrow>
           in_map (buddy j (block_head j l))
           \<and> tags S (buddy j (block_head j l)) = (page_type_free, j)
           \<longrightarrow> buddy j (block_head j l) \<in> set (lists S j)"
  shows "\<exists>u' S' k' l'.
           combine_loop u nilv sel m k l = (u', k', l')
           \<and> spec_combine S in_map m k l = (S', k', l')
           \<and> represents u' nilv sel m S' \<and> well_formed S' in_map nilv m
           \<and> page_exists (snd u') = in_map \<and> k' \<le> m
           \<and> entry_page nilv l' \<and> in_map l' \<and> (\<forall>j\<le>m. l' \<notin> set (lists S' j))"
  using assms
proof (induction "m - k" arbitrary: u S k l)
  case 0
  then have km: "k = m" by simp
  then have "stop_combining (fst u) (snd u) m k (buddy k l)"
    by (simp add: stop_combining_def)
  from combine_loop_stop [OF this] km spec_combine_stop [of m k in_map l S] 0 show ?case
    by simp
next
  case (Suc d)
  note rep = Suc.prems(1) and wf = Suc.prems(2) and im = Suc.prems(3)
  from Suc.hyps(2) have km: "k < m" and kle: "k \<le> m" and d: "d = m - (k + 1)" by simp_all
  let ?p = "buddy k l"
  let ?l' = "if ?p < l then ?p else l"
  note al = entry_pageD(1) [OF Suc.prems(6)]
  from Suc.prems(9) have al: "take_bit 12 l = 0"
    by (simp add: take_bit_zero_bits)
  note ap = buddy_page_aligned [OF al, of k]
  from km Suc.prems(5) have k64: "12 + k < 64" by simp
  from rep have tg: "\<And>q. take_bit 12 q = 0 \<Longrightarrow> page_exists (snd u) q \<Longrightarrow>
        tags S q = (page_info_type (fst u) q, unat (page_info_bin (fst u) q))"
    by (simp add: represents_def)
  show ?case
  proof (cases "stop_combining (fst u) (snd u) m k ?p")
    case True
    with km have "\<not> in_map ?p \<or> fst (tags S ?p) \<noteq> page_type_free \<or> snd (tags S ?p) \<noteq> k"
      using tg [OF ap] by (auto simp: stop_combining_iff im)
    then have "spec_combine S in_map m k l = (S, k, l)"
      by (intro spec_combine_stop) blast
    with combine_loop_stop [OF True] Suc.prems show ?thesis
      by simp
  next
    case False
    then have ip: "in_map ?p" and tp: "tags S ?p = (page_type_free, k)"
      using tg [OF ap] by (auto simp: stop_combining_iff im)
    from Suc.prems(10) [rule_format, of k] km ip tp have pin: "?p \<in> set (lists S k)"
      unfolding block_head_aligned [OF Suc.prems(9)] by simp
    let ?S1 = "S\<lparr>lists := (lists S)(k := remove1 ?p (lists S k))\<rparr>"
    let ?u1 = "remove_buddy u nilv sel k ?p"
    note r1 = represents_remove_buddy [OF rep wf kle pin]
    from wf have dk: "distinct (lists S k)"
      and dj: "\<And>j. j \<le> m \<Longrightarrow> j \<noteq> k \<Longrightarrow> set (lists S k) \<inter> set (lists S j) = {}"
      and ep: "entry_page nilv ?p" and "in_map ?p"
      using kle pin by (auto simp: well_formed_def)
    have notin: "\<forall>j\<le>m. ?l' \<notin> set (lists ?S1 j)"
    proof (intro allI impI)
      fix j assume j: "j \<le> m"
      have "?p \<notin> set (lists ?S1 j)"
        using dk dj [OF j] pin by (cases "j = k") auto
      moreover have "l \<notin> set (lists ?S1 j)"
        using Suc.prems(8) j set_remove1_subset [of ?p "lists S k"] by (cases "j = k") auto
      ultimately show "?l' \<notin> set (lists ?S1 j)" by simp
    qed
    have acc: "\<forall>j. k + 1 \<le> j \<and> j < m \<longrightarrow>
           in_map (buddy j (block_head j ?l'))
           \<and> tags ?S1 (buddy j (block_head j ?l')) = (page_type_free, j)
           \<longrightarrow> buddy j (block_head j ?l') \<in> set (lists ?S1 j)"
    proof (intro allI impI)
      fix j
      assume j: "k + 1 \<le> j \<and> j < m"
        and a: "in_map (buddy j (block_head j ?l'))
           \<and> tags ?S1 (buddy j (block_head j ?l')) = (page_type_free, j)"
      from j have kj: "k < j" by simp
      note bh = block_head_lower_buddy [OF kj, of l]
      from Suc.prems(10) [rule_format, of j] j a
      have "buddy j (block_head j l) \<in> set (lists S j)"
        unfolding bh by simp
      with kj show "buddy j (block_head j ?l') \<in> set (lists ?S1 j)"
        unfolding bh by simp
    qed
    from km have k1: "k + 1 \<le> m" by simp
    have "\<exists>u' S' k' l'.
           combine_loop ?u1 nilv sel m (k + 1) ?l' = (u', k', l')
           \<and> spec_combine ?S1 in_map m (k + 1) ?l' = (S', k', l')
           \<and> represents u' nilv sel m S' \<and> well_formed S' in_map nilv m
           \<and> page_exists (snd u') = in_map \<and> k' \<le> m
           \<and> entry_page nilv l' \<and> in_map l' \<and> (\<forall>j\<le>m. l' \<notin> set (lists S' j))"
      using d r1(1) r1(2) _ k1 Suc.prems(5) _ _ notin lower_buddy_aligned [OF Suc.prems(9) k64] acc
    proof (rule Suc.hyps(1))
      show "page_exists (snd ?u1) = in_map"
        by (simp add: page_exists_remove_buddy im)
      show "entry_page nilv ?l'" using ep Suc.prems(6) by simp
      show "in_map ?l'" using ip Suc.prems(7) by simp
    qed
    moreover note spec_combine_step [of k m in_map l S, OF km ip tp]
      combine_loop_step [OF False kle, of nilv sel]
    ultimately show ?thesis
      by simp
  qed
qed

lemma other_array_set_bin:
  assumes "sel' \<noteq> sel"
  shows "buddies_of sel' (set_bin sel k b bi) = buddies_of sel' bi"
  using assms by (cases sel; cases sel') (simp_all add: buddies_of_def set_bin_def)

lemma other_array_remove_buddy:
  assumes "sel' \<noteq> sel"
  shows "buddies_of sel' (snd (remove_buddy u nilv sel k p)) = buddies_of sel' (snd u)"
  using assms
  by (simp add: remove_buddy_def Let_def split_beta set_bin_first_page_def set_bin_count_def
      other_array_set_bin)

lemma other_array_push_free:
  assumes "sel' \<noteq> sel"
  shows "buddies_of sel' (snd (push_free u nilv sel k l)) = buddies_of sel' (snd u)"
  using assms
  by (simp add: push_free_def Let_def split_beta set_bin_first_page_def set_bin_count_def
      other_array_set_bin)

lemma other_array_combine_loop:
  assumes "sel' \<noteq> sel"
  shows "buddies_of sel' (snd (fst (combine_loop u nilv sel m k l))) = buddies_of sel' (snd u)"
  using assms
proof (induction u nilv sel m k l rule: combine_loop.induct)
  case (1 st nilv sel m k l)
  show ?case
  proof (cases "stop_combining (fst st) (snd st) m k (buddy k l) \<or> m < k")
    case True
    then have "combine_loop st nilv sel m k l = (st, k, l)"
      by (subst combine_loop.simps) (auto simp: Let_def)
    then show ?thesis by simp
  next
    case False
    then have s: "\<not> stop_combining (fst st) (snd st) m k (buddy k l)" and k: "\<not> m < k" by simp_all
    have "combine_loop st nilv sel m k l
        = combine_loop (remove_buddy st nilv sel k (buddy k l)) nilv sel m (k + 1)
            (if buddy k l < l then buddy k l else l)"
      using False by (subst combine_loop.simps) (simp add: Let_def)
    with "1.IH" [OF refl s k "1.prems"] other_array_remove_buddy [OF "1.prems"]
    show ?thesis by simp
  qed
qed

text \<open>
  \<^verbatim>\<open>buddy_free_page\<close> does to the bins and the page infos what the release of the
  specification does to the lists and the tags.
\<close>

lemma release_refines_spec:
  assumes rep: "represents u nilv sel m S"
    and wf: "well_formed S (page_exists (snd u)) nilv m"
    and rl: "releasable S (page_exists (snd u)) nilv m l"
    and sel: "select_buddies l = (sel, m)"
  shows "represents (buddy_free_page u nilv l) nilv sel m (spec_free_page S (page_exists (snd u)) m l)"
    and "well_formed (spec_free_page S (page_exists (snd u)) m l) (page_exists (snd u)) nilv m"
    and "page_exists (snd (buddy_free_page u nilv l)) = page_exists (snd u)"
    and "sel' \<noteq> sel \<Longrightarrow> buddies_of sel' (snd (buddy_free_page u nilv l)) = buddies_of sel' (snd u)"
proof -
  let ?in_map = "page_exists (snd u)"
  from select_buddies_cases [OF sel] have m52: "m < 52" and m256: "m < 256" by auto
  from rl have el: "entry_page nilv l" and il: "?in_map l" and nl: "\<forall>j\<le>m. l \<notin> set (lists S j)"
    and acc: "\<forall>j. 0 \<le> j \<and> j < m \<longrightarrow>
           ?in_map (buddy j (block_head j l))
           \<and> tags S (buddy j (block_head j l)) = (page_type_free, j)
           \<longrightarrow> buddy j (block_head j l) \<in> set (lists S j)"
    by (simp_all add: releasable_def)
  from el have al: "take_bit (12 + 0) l = 0" by (simp add: entry_page_def)
  from combine_loop_refines [OF rep wf refl le0 m52 el il nl al acc]
  obtain u' S' k' l' where
    cl: "combine_loop u nilv sel m 0 l = (u', k', l')" and
    sc: "spec_combine S ?in_map m 0 l = (S', k', l')" and
    rep': "represents u' nilv sel m S'" and wf': "well_formed S' ?in_map nilv m" and
    pe: "page_exists (snd u') = ?in_map" and k': "k' \<le> m" and
    el': "entry_page nilv l'" and il': "?in_map l'" and nl': "\<forall>j\<le>m. l' \<notin> set (lists S' j)"
    by blast
  have f: "buddy_free_page u nilv l = push_free u' nilv sel k' l'"
    by (simp add: buddy_free_page_def sel cl)
  have s: "spec_free_page S ?in_map m l
      = S'\<lparr>lists := (lists S')(k' := l' # lists S' k'), tags := (tags S')(l' := (page_type_free, k'))\<rparr>"
    by (simp add: spec_free_page_def sc)
  note r = represents_push_free [OF rep' wf' k' m256 el' il' nl']
  from r(1) show "represents (buddy_free_page u nilv l) nilv sel m (spec_free_page S ?in_map m l)"
    by (simp add: f s)
  from r(2) show "well_formed (spec_free_page S ?in_map m l) ?in_map nilv m"
    by (simp add: s)
  show "page_exists (snd (buddy_free_page u nilv l)) = ?in_map"
    by (simp add: f page_exists_push_free pe)
  show "buddies_of sel' (snd (buddy_free_page u nilv l)) = buddies_of sel' (snd u)" if "sel' \<noteq> sel"
    using other_array_combine_loop [OF that, of u nilv m 0 l] other_array_push_free [OF that]
    by (simp add: f cl)
qed

subsection \<open>Two buddies released into an empty allocator\<close>

lemma single_entry_lists:
  assumes se: "single_entry sel n c nilv st s'" and ea: "empty_allocator st nilv"
    and sel: "select_buddies c = (sel, m)" and n: "n \<le> m" and j: "j \<le> m"
  shows "bin_holds s' nilv sel j (if j = n then [c] else [])"
proof -
  note bins = empty_allocator_bins [OF ea sel]
  from se have bi: "snd s' = set_bin sel n \<lparr>first_page = link_of c, count = fixnum 1\<rparr> (snd st)"
    and nx: "page_info_next (fst s') c = nilv" and pv: "page_info_prev (fst s') c = nilv"
    by (simp_all add: single_entry_def info_core_def link_of_def)
  show ?thesis
    using bins(1) [OF j] bins(2) [OF j] bins(3) [OF n] nx pv
    by (simp add: bin_holds_def bi first_page_set_bin count_set_bin fixnum_def)
qed

text \<open>
  Two buddies of the last order of the 32-bit bins: the loop stops at once, and both stay
  entries of the last bin.
\<close>

lemma first_half_below_4G:
  assumes "in_block 0 19 q \<or> in_block 0x80000000 19 q"
  shows "q < 0x100000000"
proof -
  have c: "(0x80000000 :: u64) = 2 ^ 31" by simp
  from assms consider "\<forall>i. 12 + 19 \<le> i \<longrightarrow> bit q i = bit (0 :: u64) i"
    | "\<forall>i. 12 + 19 \<le> i \<longrightarrow> bit q i = bit (2 ^ 31 :: u64) i"
    unfolding in_block_def drop_bit_eq_bits c by blast
  then have "\<forall>i. 32 \<le> i \<longrightarrow> bit q i = bit (0 :: u64) i"
  proof cases
    case 1
    then show ?thesis by simp
  next
    case 2
    show ?thesis
    proof (intro allI impI)
      fix i :: nat assume i: "32 \<le> i"
      then have "12 + 19 \<le> i" by simp
      with 2 have "bit q i = bit (2 ^ 31 :: u64) i" by blast
      also have "\<dots> = False" using i by (simp only: bit_exp_iff) simp
      finally show "bit q i = bit (0 :: u64) i" by simp
    qed
  qed
  then have "drop_bit 32 q = drop_bit 32 0" unfolding drop_bit_eq_bits .
  then show ?thesis by (simp add: below_4G_bits)
qed

lemma top_buddies_stay_apart:
  assumes nz: "nilv \<noteq> 0"
  shows "bin_holds (release_block (release_block (example_allocator nilv) nilv 0 19) nilv 0x80000000 19)
           nilv Buddy_Bin_32 19 [0x80000000, 0]"
    and "length (buddies_of Buddy_Bin_32
           (snd (release_block (release_block (example_allocator nilv) nilv 0 19) nilv 0x80000000 19)))
         = 20"
proof -
  let ?st = "example_allocator nilv"
  let ?c' = "0x80000000 :: u64"
  let ?s1 = "release_block ?st nilv 0 19"
  let ?s2 = "release_block ?s1 nilv ?c' 19"
  have ea: "empty_allocator ?st nilv" by (rule example_allocator_empty)
  have sel: "select_buddies 0 = (Buddy_Bin_32, 19)" and sel': "select_buddies ?c' = (Buddy_Bin_32, 19)"
    by (simp_all add: select_buddies_bins)
  have b: "buddy 19 0 = ?c'" and b': "buddy 19 ?c' = 0"
    by (simp_all add: buddy_xor)
  note bins = empty_allocator_bins [OF ea sel]
  from ea have nf: "page_info_type (fst ?st) q \<noteq> page_type_free" for q
    by (simp add: empty_allocator_def)
  have a0: "take_bit (12 + 19) (0 :: u64) = 0" and a1: "take_bit (12 + 19) ?c' = 0"
    by simp_all
  have ex: "page_exists (snd ?st) q"
    if "q \<in> set (block_pages 0 19) \<or> q \<in> set (block_pages ?c' 19)" for q
    using that block_pages_in_block [OF a0, of q] block_pages_in_block [OF a1, of q]
      first_half_below_4G [of q]
    by (auto simp: example_allocator_pages)
  have g1: "agree_outside 0 19 ?s1 (free_at_order ?st nilv Buddy_Bin_32 19 19 0)
       \<and> info_core (fst ?s1) (snd (snd (combine_loop ?st nilv Buddy_Bin_32 19 19 0)))
         = info_core (fst (free_at_order ?st nilv Buddy_Bin_32 19 19 0))
             (snd (snd (combine_loop ?st nilv Buddy_Bin_32 19 19 0)))"
    using a0 order_refl _ sel bins(3) [OF order_refl]
  proof (rule release_block_simulates)
    show "(19 :: nat) < 52" by simp
    show "\<forall>j<19. bin_first_page Buddy_Bin_32 j (snd ?st) = nilv"
      using bins(1) by simp
    show "\<forall>q. in_block 0 19 q \<longrightarrow> page_info_type (fst ?st) q \<noteq> page_type_free"
      using nf by simp
    show "\<forall>q\<in>set (block_pages 0 19). page_exists (snd ?st) q"
      using ex by simp
  qed
  have stop1: "stop_combining (fst ?st) (snd ?st) 19 19 (buddy 19 0)"
    by (simp add: stop_combining_def)
  note alone = released_alone [OF conjunct1 [OF g1] conjunct2 [OF g1] stop1 bins(1) [OF order_refl]
      bins(3) [OF order_refl]]
  have len1: "19 < length (buddies_of Buddy_Bin_32 (snd ?s1))"
    using bins(3) [OF order_refl] by (simp add: alone(1))
  have h1: "bin_holds ?s1 nilv Buddy_Bin_32 19 [0]"
    using alone(2) bins(2) [OF order_refl] bins(3) [OF order_refl]
    by (simp add: bin_holds_def alone(1) first_page_set_bin count_set_bin info_core_def
        link_of_def fixnum_def)
  have g2: "agree_outside ?c' 19 ?s2 (free_at_order ?s1 nilv Buddy_Bin_32 19 19 ?c')
       \<and> info_core (fst ?s2) (snd (snd (combine_loop ?s1 nilv Buddy_Bin_32 19 19 ?c')))
         = info_core (fst (free_at_order ?s1 nilv Buddy_Bin_32 19 19 ?c'))
             (snd (snd (combine_loop ?s1 nilv Buddy_Bin_32 19 19 ?c')))"
    using a1 order_refl _ sel' len1
  proof (rule release_block_simulates)
    show "(19 :: nat) < 52" by simp
    show "\<forall>j<19. bin_first_page Buddy_Bin_32 j (snd ?s1) = nilv"
      using bins(1) by (simp add: alone(1) first_page_set_bin)
    show "\<forall>q. in_block ?c' 19 q \<longrightarrow> page_info_type (fst ?s1) q \<noteq> page_type_free"
    proof (intro allI impI)
      fix q assume "in_block ?c' 19 q"
      then have "in_block (buddy 19 0) 19 q" by (simp add: b)
      then have "\<not> in_block 0 19 q" by (rule in_block_other_half) simp
      with alone(3) have "fst ?s1 (q div PAGE_SIZE) = fst ?st (q div PAGE_SIZE)" by blast
      then have "page_info_type (fst ?s1) q = page_info_type (fst ?st) q" by (rule reads_cong)
      with nf show "page_info_type (fst ?s1) q \<noteq> page_type_free" by simp
    qed
    show "\<forall>q\<in>set (block_pages ?c' 19). page_exists (snd ?s1) q"
      using ex by (simp add: alone(1))
  qed
  let ?t = "push_free ?s1 nilv Buddy_Bin_32 19 ?c'"
  have stop2: "stop_combining (fst ?s1) (snd ?s1) 19 19 (buddy 19 ?c')"
    by (simp add: stop_combining_def)
  note loop2 = combine_loop_stop [OF stop2, of nilv Buddy_Bin_32]
  have f: "free_at_order ?s1 nilv Buddy_Bin_32 19 19 ?c' = ?t"
    by (simp add: free_at_order_def loop2)
  from g2 have bi2: "snd ?s2 = snd ?t"
    and out: "\<And>q. in_block ?c' 19 q \<or> fst ?s2 (q div PAGE_SIZE) = fst ?t (q div PAGE_SIZE)"
    and core: "info_core (fst ?s2) ?c' = info_core (fst ?t) ?c'"
    by (simp_all add: agree_outside_def f loop2)
  have e0: "entry_page nilv 0"
    using nz by (simp add: entry_page_def link_of_def fixnum_def)
  have ht: "bin_holds ?t nilv Buddy_Bin_32 19 [?c', 0]"
    using h1 _ _ _ _ len1 by (rule bin_holds_push_free) (simp_all add: e0)
  have "\<not> in_block ?c' 19 0"
    by (simp add: in_block_def drop_bit_eq_div)
  with out [of 0] have z: "fst ?s2 (0 div PAGE_SIZE) = fst ?t (0 div PAGE_SIZE)"
    by simp
  have "dll (fst ?s2) nilv nilv (bin_first_page Buddy_Bin_32 19 (snd ?t)) [?c', 0]
      = dll (fst ?t) nilv nilv (bin_first_page Buddy_Bin_32 19 (snd ?t)) [?c', 0]"
  proof (rule dll_cong, intro ballI)
    fix x assume "x \<in> set [?c', 0 :: u64]"
    then consider "x = ?c'" | "x = 0" by auto
    then show "page_info_next (fst ?s2) x = page_info_next (fst ?t) x
        \<and> page_info_prev (fst ?s2) x = page_info_prev (fst ?t) x"
    proof cases
      case 1
      with core show ?thesis by (simp add: info_core_def)
    next
      case 2
      with reads_cong(3) [where mmu = "fst ?s2" and mmu' = "fst ?t" and q = 0, OF z]
        reads_cong(4) [where mmu = "fst ?s2" and mmu' = "fst ?t" and q = 0, OF z]
      show ?thesis by simp
    qed
  qed
  with ht show "bin_holds ?s2 nilv Buddy_Bin_32 19 [?c', 0]"
    by (simp add: bin_holds_def bi2)
  from ea have "length (buddies_of Buddy_Bin_32 (snd ?st)) = 20"
    by (simp add: empty_allocator_def buddies_of_def mezzano_n_buddy_bins_32_bit_def
        log2_4k_page_def)
  then show "length (buddies_of Buddy_Bin_32 (snd ?s2)) = 20"
    by (simp add: bi2 length_push_free alone(1))
qed

subsection \<open>Examples\<close>

lemma spec_bins_select: "spec_bins l = select_buddies l"
  by (simp add: spec_bins_def select_buddies_bins)

lemma represents_example_allocator:
  "represents (example_allocator nilv) nilv Buddy_Bin_32 19 empty_buddy_state"
proof -
  note bins = empty_allocator_bins [OF example_allocator_empty [of nilv], of 0 Buddy_Bin_32 19]
  have s: "select_buddies 0 = (Buddy_Bin_32, 19)" by (simp add: select_buddies_bins)
  have "page_info_type (fst (example_allocator nilv)) q = page_type_other
      \<and> page_info_bin (fst (example_allocator nilv)) q = 0" for q
    by (simp add: example_allocator_def page_info_type_def page_info_bin_def page_info_flags_def
        unfixnum_def page_type_other_def)
  then show ?thesis
    using bins(1) [OF s] bins(2) [OF s] bins(3) [OF s order_refl]
    by (simp add: represents_def bin_holds_def empty_buddy_state_def fixnum_def)
qed

lemma spec_free_page_alone:
  assumes "fst (tags S (buddy 0 l)) \<noteq> page_type_free"
  shows "spec_free_page S in_map m l
     = S\<lparr>lists := (lists S)(0 := l # lists S 0), tags := (tags S)(l := (page_type_free, 0))\<rparr>"
  using assms by (simp add: spec_free_page_def spec_combine_stop)

lemma three_pages_released:
  "spec_free_pages empty_buddy_state in_map 19 [0x1000, 0x3000, 0x5000]
     = \<lparr>lists = (\<lambda>j. [])(0 := [0x5000, 0x3000, 0x1000]),
        tags = (\<lambda>q. (page_type_other, 0))
                 (0x1000 := (page_type_free, 0), 0x3000 := (page_type_free, 0),
                  0x5000 := (page_type_free, 0))\<rparr>"
  by (simp add: spec_free_pages_def spec_free_page_alone buddy_xor empty_buddy_state_def
      page_type_other_def page_type_free_def)

lemma releasable_order_zero:
  assumes "\<forall>q. snd (tags S q) = 0" and "entry_page nilv l" and "in_map l"
    and "\<forall>j\<le>m. l \<notin> set (lists S j)"
    and "fst (tags S (buddy 0 l)) = page_type_free \<longrightarrow> buddy 0 l \<in> set (lists S 0)"
  shows "releasable S in_map nilv m l"
proof -
  from assms(2) have "take_bit (12 + 0) l = 0" by (simp add: entry_page_def)
  note h = block_head_aligned [OF this]
  have "buddy k (block_head k l) \<in> set (lists S k)"
    if "tags S (buddy k (block_head k l)) = (page_type_free, k)" for k
  proof -
    from that assms(1) have "k = 0" by (metis snd_conv)
    with that assms(5) show ?thesis by (simp add: h)
  qed
  with assms(2,3,4) show ?thesis by (simp add: releasable_def)
qed

lemma release_step:
  assumes "represents u nilv sel m S" and "well_formed S in_map nilv m"
    and "page_exists (snd u) = in_map" and "releasable S in_map nilv m l"
    and "select_buddies l = (sel, m)"
  shows "represents (buddy_free_page u nilv l) nilv sel m (spec_free_page S in_map m l)"
    and "well_formed (spec_free_page S in_map m l) in_map nilv m"
    and "page_exists (snd (buddy_free_page u nilv l)) = in_map"
  using release_refines_spec [of u nilv sel m S l] assms by auto

lemma three_pages_represented:
  shows "represents (free_pages (example_allocator 0x200009) 0x200009 [0x1000, 0x3000, 0x5000])
     0x200009 Buddy_Bin_32 19
     (spec_free_pages empty_buddy_state (page_exists (snd (example_allocator 0x200009))) 19
        [0x1000, 0x3000, 0x5000])"
    and "well_formed
     (spec_free_pages empty_buddy_state (page_exists (snd (example_allocator 0x200009))) 19
        [0x1000, 0x3000, 0x5000])
     (page_exists (snd (example_allocator 0x200009))) 0x200009 19"
    and "page_exists (snd (free_pages (example_allocator 0x200009) 0x200009 [0x1000, 0x3000, 0x5000]))
     = page_exists (snd (example_allocator 0x200009))"
proof -
  let ?n = "0x200009 :: u64"
  let ?ex = "example_allocator ?n"
  let ?im = "page_exists (snd ?ex)"
  let ?T1 = "spec_free_page empty_buddy_state ?im 19 0x1000"
  let ?T2 = "spec_free_page ?T1 ?im 19 0x3000"
  have im: "?im q \<longleftrightarrow> q < 0x100000000" for q by (rule example_allocator_pages)
  have e: "entry_page ?n 0x1000" "entry_page ?n 0x3000" "entry_page ?n 0x5000"
    by (simp_all add: entry_page_def link_of_def fixnum_def PAGE_SIZE_def)
  have s: "select_buddies 0x1000 = (Buddy_Bin_32, 19)" "select_buddies 0x3000 = (Buddy_Bin_32, 19)"
    "select_buddies 0x5000 = (Buddy_Bin_32, 19)"
    by (simp_all add: select_buddies_bins)
  have E1: "?T1 = \<lparr>lists = (\<lambda>j. [])(0 := [0x1000]),
        tags = (\<lambda>q. (page_type_other, 0))(0x1000 := (page_type_free, 0))\<rparr>"
    by (simp add: spec_free_page_alone buddy_xor empty_buddy_state_def
        page_type_other_def page_type_free_def)
  have E2: "?T2 = \<lparr>lists = (\<lambda>j. [])(0 := [0x3000, 0x1000]),
        tags = (\<lambda>q. (page_type_other, 0))
                 (0x1000 := (page_type_free, 0), 0x3000 := (page_type_free, 0))\<rparr>"
    by (simp add: E1 spec_free_page_alone buddy_xor page_type_other_def page_type_free_def)
  have w0: "well_formed empty_buddy_state ?im ?n 19"
    by (simp add: well_formed_def empty_buddy_state_def)
  have l0: "releasable empty_buddy_state ?im ?n 19 0x1000"
    using e(1) by (intro releasable_order_zero)
      (simp_all add: empty_buddy_state_def im page_type_other_def page_type_free_def)
  note a = release_step [OF represents_example_allocator w0 refl l0 s(1)]
  have l1: "releasable ?T1 ?im ?n 19 0x3000"
    using e(2) by (intro releasable_order_zero)
      (simp_all add: E1 im page_type_other_def page_type_free_def buddy_xor)
  note b = release_step [OF a l1 s(2)]
  have l2: "releasable ?T2 ?im ?n 19 0x5000"
    using e(3) by (intro releasable_order_zero)
      (simp_all add: E2 im page_type_other_def page_type_free_def buddy_xor)
  note c = release_step [OF b l2 s(3)]
  from c(1) show "represents (free_pages ?ex ?n [0x1000, 0x3000, 0x5000]) ?n Buddy_Bin_32 19
     (spec_free_pages empty_buddy_state ?im 19 [0x1000, 0x3000, 0x5000])"
    by (simp add: free_pages_def spec_free_pages_def)
  from c(2) show "well_formed (spec_free_pages empty_buddy_state ?im 19 [0x1000, 0x3000, 0x5000])
     ?im ?n 19"
    by (simp add: spec_free_pages_def)
  from c(3) show "page_exists (snd (free_pages ?ex ?n [0x1000, 0x3000, 0x5000])) = ?im"
    by (simp add: free_pages_def)
qed

subsection \<open>The release of a page\<close>

text \<open>
  C2, as stated: releasing two buddies of order \<open>k\<close> into an empty allocator leaves exactly
  one entry, in bin \<open>k + 1\<close>. This fails for the last order of an array, where the loop stops
  at once (\<open>k = m\<close>) and there is no bin \<open>k + 1\<close>: the 32-bit array has the 20 bins 0 to 19,
  and the two blocks of order 19 at 0 and at 2 GiB, buddies of each other, released page by
  page into the empty allocator of the first 4 GiB, both stay entries of bin 19.
\<close>

theorem two_buddies_of_last_order_stay_apart:
  "empty_allocator (example_allocator 0x200009) 0x200009
   \<and> select_buddies 0 = (Buddy_Bin_32, 19)
   \<and> buddy 19 0 = 0x80000000
   \<and> length (buddies_of Buddy_Bin_32
        (snd (release_block (release_block (example_allocator 0x200009) 0x200009 0 19)
                0x200009 0x80000000 19))) = 20
   \<and> bin_holds (release_block (release_block (example_allocator 0x200009) 0x200009 0 19)
                  0x200009 0x80000000 19)
        0x200009 Buddy_Bin_32 19 [0x80000000, 0]"
proof -
  let ?s2 = "release_block (release_block (example_allocator 0x200009) 0x200009 0 19)
                0x200009 0x80000000 19"
  have h: "bin_holds ?s2 0x200009 Buddy_Bin_32 19 [0x80000000, 0]"
    by (rule top_buddies_stay_apart) simp
  have "length (buddies_of Buddy_Bin_32 (snd ?s2)) = 20"
    by (rule top_buddies_stay_apart) simp
  with h show ?thesis
    by (simp add: example_allocator_empty select_buddies_bins buddy_xor)
qed

text \<open>
  C2, amended. For page \<open>l\<close> the array and the last bin index are the 32-bit bins and 19
  below 4 GiB, the 64-bit bins and 26 otherwise. Let the state of the loader represent the
  well-formed buddy state \<open>S\<close>: every bin up to the last holds the list that \<open>S\<close> gives it,
  as a doubly linked list that starts at \<^verbatim>\<open>first_page\<close>, with \<open>nil\<close> before its head and
  after its last page, and with \<^verbatim>\<open>count\<close> the \<open>fixnum\<close> of its length; and the page infos of
  the pages of the memory map carry the types and bins of \<open>S\<close>. Let \<open>l\<close> be a page that can
  be released. Then \<^verbatim>\<open>buddy_free_page\<close> leaves a state that represents \<open>spec_free_page S\<close>:
  starting at order 0 the loop stops exactly when \<open>k\<close> is the last index, or the buddy
  \<open>l XOR 2^(k+12)\<close> lies outside the memory map, or its type is not free, or its bin is not
  \<open>k\<close>; otherwise the buddy leaves the list of bin \<open>k\<close>, whose neighbours are linked to each
  other and whose count drops by \<open>fixnum(1)\<close>, and the loop goes on with the smaller of the
  two addresses at order \<open>k + 1\<close>; on exit \<open>l\<close> is marked free with bin \<open>k\<close> and is the new
  head of the list of bin \<open>k\<close>. The state reached is well-formed again, the memory map and
  the bins of the other array are as before. Consequently, when the two buddies of order
  \<open>k\<close> that make up the aligned block of order \<open>k + 1\<close> at \<open>c\<close> are released page by page
  into an empty allocator, in either order, where \<open>k\<close> is below the last bin index of the
  array and the pages lie in the memory map, then bin \<open>k + 1\<close> holds the block at \<open>c\<close> and
  nothing else, and every other bin of the array is empty.
\<close>

theorem buddy_free_page_releases:
  "(spec_bins l = (sel, m) \<and> represents u nilv sel m S
      \<and> well_formed S (page_exists (snd u)) nilv m
      \<and> releasable S (page_exists (snd u)) nilv m l \<longrightarrow>
        represents (buddy_free_page u nilv l) nilv sel m
          (spec_free_page S (page_exists (snd u)) m l)
        \<and> well_formed (spec_free_page S (page_exists (snd u)) m l) (page_exists (snd u)) nilv m
        \<and> page_exists (snd (buddy_free_page u nilv l)) = page_exists (snd u)
        \<and> (\<forall>other. other \<noteq> sel \<longrightarrow>
              buddies_of other (snd (buddy_free_page u nilv l)) = buddies_of other (snd u)))
   \<and> (spec_bins c = (sel', m') \<and> k < m' \<and> j \<le> m' \<and> empty_allocator st nilv'
        \<and> take_bit (12 + (k + 1)) c = 0
        \<and> (\<forall>q\<in>set (block_pages c (k + 1)). page_exists (snd st) q) \<longrightarrow>
          bin_holds (release_block (release_block st nilv' c k) nilv' (buddy k c) k)
            nilv' sel' j (if j = k + 1 then [c] else [])
          \<and> bin_holds (release_block (release_block st nilv' (buddy k c) k) nilv' c k)
              nilv' sel' j (if j = k + 1 then [c] else []))"
proof (intro conjI impI allI; (elim conjE)?)
  assume a: "spec_bins l = (sel, m)" "represents u nilv sel m S"
    "well_formed S (page_exists (snd u)) nilv m" "releasable S (page_exists (snd u)) nilv m l"
  from a(1) have s: "select_buddies l = (sel, m)" by (simp add: spec_bins_select)
  note r = release_refines_spec [OF a(2,3,4) s]
  show "represents (buddy_free_page u nilv l) nilv sel m
          (spec_free_page S (page_exists (snd u)) m l)" by (rule r(1))
  show "well_formed (spec_free_page S (page_exists (snd u)) m l) (page_exists (snd u)) nilv m"
    by (rule r(2))
  show "page_exists (snd (buddy_free_page u nilv l)) = page_exists (snd u)" by (rule r(3))
  show "buddies_of other (snd (buddy_free_page u nilv l)) = buddies_of other (snd u)"
    if "other \<noteq> sel" for other using that by (rule r(4))
next
  assume b: "spec_bins c = (sel', m')" "k < m'" "j \<le> m'" "empty_allocator st nilv'"
    "take_bit (12 + (k + 1)) c = 0" "\<forall>q\<in>set (block_pages c (k + 1)). page_exists (snd st) q"
  from b(1) have s: "select_buddies c = (sel', m')" by (simp add: spec_bins_select)
  from b(2) have k1: "k + 1 \<le> m'" by simp
  note t = two_buddies_coalesce [OF b(4,5) s b(2,6)]
  show "bin_holds (release_block (release_block st nilv' c k) nilv' (buddy k c) k)
            nilv' sel' j (if j = k + 1 then [c] else [])"
    using t(1) b(4) s k1 b(3) by (rule single_entry_lists)
  show "bin_holds (release_block (release_block st nilv' (buddy k c) k) nilv' c k)
              nilv' sel' j (if j = k + 1 then [c] else [])"
    using t(2) b(4) s k1 b(3) by (rule single_entry_lists)
qed

theorem buddy_free_page_releases_witness:
  "spec_bins 0x2000 = (Buddy_Bin_32, 19)
   \<and> represents (free_pages (example_allocator 0x200009) 0x200009 [0x1000, 0x3000, 0x5000])
        0x200009 Buddy_Bin_32 19
        (spec_free_pages empty_buddy_state (page_exists (snd (example_allocator 0x200009))) 19
           [0x1000, 0x3000, 0x5000])
   \<and> well_formed
        (spec_free_pages empty_buddy_state (page_exists (snd (example_allocator 0x200009))) 19
           [0x1000, 0x3000, 0x5000])
        (page_exists (snd (example_allocator 0x200009))) 0x200009 19
   \<and> releasable
        (spec_free_pages empty_buddy_state (page_exists (snd (example_allocator 0x200009))) 19
           [0x1000, 0x3000, 0x5000])
        (page_exists (snd (example_allocator 0x200009))) 0x200009 19 0x2000
   \<and> lists (spec_free_pages empty_buddy_state (page_exists (snd (example_allocator 0x200009))) 19
              [0x1000, 0x3000, 0x5000]) 0 = [0x5000, 0x3000, 0x1000]
   \<and> lists (spec_free_pages empty_buddy_state (page_exists (snd (example_allocator 0x200009))) 19
              [0x1000, 0x3000, 0x5000, 0x2000]) 0 = [0x5000, 0x1000]
   \<and> lists (spec_free_pages empty_buddy_state (page_exists (snd (example_allocator 0x200009))) 19
              [0x1000, 0x3000, 0x5000, 0x2000]) 1 = [0x2000]
   \<and> represents
        (free_pages (example_allocator 0x200009) 0x200009 [0x1000, 0x3000, 0x5000, 0x2000])
        0x200009 Buddy_Bin_32 19
        (spec_free_pages empty_buddy_state (page_exists (snd (example_allocator 0x200009))) 19
           [0x1000, 0x3000, 0x5000, 0x2000])
   \<and> bin_holds
        (free_pages (example_allocator 0x200009) 0x200009 [0x1000, 0x3000, 0x5000, 0x2000])
        0x200009 Buddy_Bin_32 0 [0x5000, 0x1000]
   \<and> bin_holds
        (free_pages (example_allocator 0x200009) 0x200009 [0x1000, 0x3000, 0x5000, 0x2000])
        0x200009 Buddy_Bin_32 1 [0x2000]
   \<and> spec_bins 0x4000 = (Buddy_Bin_32, 19)
   \<and> empty_allocator (example_allocator 0x200009) 0x200009
   \<and> list_all (page_exists (snd (example_allocator 0x200009))) (block_pages 0x4000 2)
   \<and> bin_holds
        (release_block (release_block (example_allocator 0x200009) 0x200009 0x4000 1)
           0x200009 0x6000 1)
        0x200009 Buddy_Bin_32 2 [0x4000]
   \<and> bin_holds
        (release_block (release_block (example_allocator 0x200009) 0x200009 0x6000 1)
           0x200009 0x4000 1)
        0x200009 Buddy_Bin_32 2 [0x4000]"
proof -
  let ?n = "0x200009 :: u64"
  let ?ex = "example_allocator ?n"
  let ?im = "page_exists (snd ?ex)"
  let ?u3 = "free_pages ?ex ?n [0x1000, 0x3000, 0x5000]"
  let ?T3 = "spec_free_pages empty_buddy_state ?im 19 [0x1000, 0x3000, 0x5000]"
  let ?u4 = "free_pages ?ex ?n [0x1000, 0x3000, 0x5000, 0x2000]"
  let ?T4 = "spec_free_pages empty_buddy_state ?im 19 [0x1000, 0x3000, 0x5000, 0x2000]"
  note r3 = three_pages_represented(1)
  note w3 = three_pages_represented(2)
  note p3 = three_pages_represented(3)
  note E3 = three_pages_released [of ?im]
  have im: "?im q \<longleftrightarrow> q < 0x100000000" for q by (rule example_allocator_pages)
  have sb: "spec_bins 0x2000 = (Buddy_Bin_32, 19)" "spec_bins 0x4000 = (Buddy_Bin_32, 19)"
    by (simp_all add: spec_bins_def)
  have l3: "releasable ?T3 ?im ?n 19 0x2000"
    by (intro releasable_order_zero)
       (simp_all add: E3 im entry_page_def link_of_def fixnum_def PAGE_SIZE_def buddy_xor)
  have u4: "?u4 = buddy_free_page ?u3 ?n 0x2000"
    by (simp add: free_pages_def)
  have T4: "?T4 = spec_free_page ?T3 ?im 19 0x2000"
    by (simp add: spec_free_pages_def)
  let ?X = "?T3\<lparr>lists := (lists ?T3)(0 := remove1 (buddy 0 0x2000) (lists ?T3 0))\<rparr>"
  have "spec_combine ?T3 ?im 19 0 0x2000
      = spec_combine ?X ?im 19 (0 + 1) (if buddy 0 0x2000 < 0x2000 then buddy 0 0x2000 else 0x2000)"
    by (rule spec_combine_step) (simp_all add: E3 im buddy_xor)
  also have "\<dots> = spec_combine ?X ?im 19 1 0x2000"
    by (simp add: buddy_xor)
  also have "\<dots> = (?X, 1, 0x2000)"
    by (rule spec_combine_stop)
       (simp add: E3 buddy_xor page_type_other_def page_type_free_def)
  finally have c: "spec_combine ?T3 ?im 19 0 0x2000 = (?X, 1, 0x2000)" .
  have L4: "lists ?T4 0 = [0x5000, 0x1000]" "lists ?T4 1 = [0x2000]"
    by (simp_all add: T4 spec_free_page_def c) (simp_all add: E3 buddy_xor)
  have e: "empty_allocator ?ex ?n"
    by (rule example_allocator_empty)
  have two: "(1 :: nat) + 1 = 2"
    by simp
  have p: "\<forall>q\<in>set (block_pages 0x4000 2). ?im q"
    unfolding example_block_pages by (simp add: im)
  have a: "take_bit (12 + (1 + 1)) (0x4000 :: u64) = 0"
    by simp
  have b: "buddy 1 0x4000 = 0x6000"
    by (simp add: buddy_xor)
  from buddy_free_page_releases [where l = "0x2000" and sel = Buddy_Bin_32 and m = 19
      and u = ?u3 and nilv = ?n and S = ?T3 and c = "0x4000" and sel' = Buddy_Bin_32
      and m' = 19 and k = 1 and j = 2 and st = ?ex and nilv' = ?n, unfolded p3 b two]
    sb r3 w3 l3 e a p
  have r4: "represents ?u4 ?n Buddy_Bin_32 19 ?T4"
    and m1: "bin_holds (release_block (release_block ?ex ?n 0x4000 1) ?n 0x6000 1)
               ?n Buddy_Bin_32 2 [0x4000]"
    and m2: "bin_holds (release_block (release_block ?ex ?n 0x6000 1) ?n 0x4000 1)
               ?n Buddy_Bin_32 2 [0x4000]"
    by (simp_all add: u4 T4)
  from r4 have h: "bin_holds ?u4 ?n Buddy_Bin_32 j (lists ?T4 j)" if "j \<le> 19" for j
    using that by (simp add: represents_def)
  have h4: "bin_holds ?u4 ?n Buddy_Bin_32 0 [0x5000, 0x1000]"
    "bin_holds ?u4 ?n Buddy_Bin_32 1 [0x2000]"
    using h [of 0] h [of 1] unfolding L4 by simp_all
  have E: "lists ?T3 0 = [0x5000, 0x3000, 0x1000]"
    by (simp add: E3)
  from p have p': "list_all ?im (block_pages 0x4000 2)"
    by (simp add: list_all_iff)
  show ?thesis
    by (intro conjI sb r3 w3 l3 E L4 r4 h4 e p' m1 m2)
qed

end
